theory Spec2Isabelle
  imports Complex_Main "HOL-Library.Log_Nat"
begin

section \<open>JavaScript numbers\<close>

text \<open>
  Every number of \<^verbatim>\<open>mandel.js\<close> is a JavaScript number: an IEEE 754 binary64
  value. A finite one is modelled by the real it denotes, the others by \<open>PInf\<close>,
  \<open>NInf\<close> and \<open>NaN\<close>. The result of an arithmetic operation on finite numbers is the
  exact result rounded to binary64, to the nearest value and to the even significand
  on a tie; it is an infinity when the rounded value leaves the range. The sign of
  zero is not modelled: zero is the positive zero.
\<close>

datatype jsnum = Fin real | PInf | NInf | NaN

fun finite_js :: "jsnum \<Rightarrow> bool" where
  "finite_js (Fin a) = True"
| "finite_js PInf = False"
| "finite_js NInf = False"
| "finite_js NaN = False"

text \<open>
  The binade of a positive real \<open>x\<close>: the integer \<open>e\<close> with \<open>2\<^sup>e \<le> x < 2\<^sup>e\<^sup>+\<^sup>1\<close>,
  computed from the bit length of \<open>\<lfloor>x\<rfloor>\<close>, or of \<open>\<lceil>1 / x\<rceil> - 1\<close> below 1.
\<close>

definition expo :: "real \<Rightarrow> int" where
  "expo x = (if 1 \<le> x then bitlen \<lfloor>x\<rfloor> - 1 else - bitlen (\<lceil>1 / x\<rceil> - 1))"

text \<open>Rounding to the nearest integer, to the even one on a tie.\<close>

definition round_even :: "real \<Rightarrow> int" where
  "round_even q =
     (let f = \<lfloor>q\<rfloor>; d = q - of_int f
      in if d < 1 / 2 then f else if 1 / 2 < d then f + 1 else if even f then f else f + 1)"

text \<open>
  The spacing of binary64 around \<open>x\<close> is \<open>2\<close> to the power \<open>ulp_exp x\<close>: 52 bits
  below the binade of \<open>\<bar>x\<bar>\<close>, and that of the least normal binade, \<open>-1022\<close>, for
  the subnormal numbers. \<open>rne x\<close> is the multiple of the spacing nearest to \<open>x\<close>.
\<close>

definition ulp_exp :: "real \<Rightarrow> int" where
  "ulp_exp x = max (expo \<bar>x\<bar>) (- 1022) - 52"

definition rne :: "real \<Rightarrow> real" where
  "rne x = of_int (round_even (x / 2 powi ulp_exp x)) * 2 powi ulp_exp x"

text \<open>
  Rounding to binary64: a rounded value of magnitude \<open>2\<^sup>1\<^sup>0\<^sup>2\<^sup>4\<close> or more is an
  infinity.
\<close>

definition rd :: "real \<Rightarrow> jsnum" where
  "rd x =
     (let r = rne x
      in if 2 ^ 1024 \<le> \<bar>r\<bar> then (if 0 < x then PInf else NInf) else Fin r)"

text \<open>The sign of a number, and the infinity of a given sign (\<open>NaN\<close> for sign zero).\<close>

fun sign_js :: "jsnum \<Rightarrow> real" where
  "sign_js (Fin a) = sgn a"
| "sign_js PInf = 1"
| "sign_js NInf = - 1"
| "sign_js NaN = 0"

definition inf_of_sign :: "real \<Rightarrow> jsnum" where
  "inf_of_sign s = (if 0 < s then PInf else if s < 0 then NInf else NaN)"

text \<open>The operator \<^verbatim>\<open>+\<close>.\<close>

fun js_add :: "jsnum \<Rightarrow> jsnum \<Rightarrow> jsnum" where
  "js_add (Fin a) (Fin b) = rd (a + b)"
| "js_add NaN y = NaN"
| "js_add x NaN = NaN"
| "js_add PInf NInf = NaN"
| "js_add NInf PInf = NaN"
| "js_add PInf y = PInf"
| "js_add NInf y = NInf"
| "js_add (Fin a) y = y"

text \<open>Unary minus, which is exact, and the operator \<^verbatim>\<open>-\<close>: \<open>x - y\<close> is \<open>x + (-y)\<close>.\<close>

fun js_neg :: "jsnum \<Rightarrow> jsnum" where
  "js_neg (Fin a) = Fin (- a)"
| "js_neg PInf = NInf"
| "js_neg NInf = PInf"
| "js_neg NaN = NaN"

definition js_sub :: "jsnum \<Rightarrow> jsnum \<Rightarrow> jsnum" where
  "js_sub x y = js_add x (js_neg y)"

text \<open>
  The operator \<^verbatim>\<open>*\<close>: an infinity times zero is \<open>NaN\<close>, otherwise an infinite
  product has the product of the signs.
\<close>

fun js_mul :: "jsnum \<Rightarrow> jsnum \<Rightarrow> jsnum" where
  "js_mul (Fin a) (Fin b) = rd (a * b)"
| "js_mul NaN y = NaN"
| "js_mul x NaN = NaN"
| "js_mul x y = inf_of_sign (sign_js x * sign_js y)"

text \<open>
  The operator \<^verbatim>\<open>/\<close>. A finite number divided by zero is an infinity of the
  dividend's sign, and \<open>0 / 0\<close> is \<open>NaN\<close>; a finite number divided by an
  infinity is zero; an infinity divided by an infinity is \<open>NaN\<close>.
\<close>

fun js_div :: "jsnum \<Rightarrow> jsnum \<Rightarrow> jsnum" where
  "js_div (Fin a) (Fin b) = (if b \<noteq> 0 then rd (a / b) else inf_of_sign (sgn a))"
| "js_div NaN y = NaN"
| "js_div x NaN = NaN"
| "js_div (Fin a) y = Fin 0"
| "js_div x (Fin b) = inf_of_sign (sign_js x * (if b < 0 then - 1 else 1))"
| "js_div x y = NaN"

text \<open>The operator \<^verbatim>\<open>></\<close>: false as soon as an operand is \<open>NaN\<close>.\<close>

fun js_gt :: "jsnum \<Rightarrow> jsnum \<Rightarrow> bool" where
  "js_gt (Fin a) (Fin b) = (b < a)"
| "js_gt NaN y = False"
| "js_gt x NaN = False"
| "js_gt PInf y = (y \<noteq> PInf)"
| "js_gt x NInf = (x \<noteq> NInf)"
| "js_gt x y = False"

text \<open>
  \<^verbatim>\<open>Math.ceil\<close>: the least integer not below a finite number, which is a binary64
  value when the number is; others unchanged.
\<close>

fun js_ceil :: "jsnum \<Rightarrow> jsnum" where
  "js_ceil (Fin a) = Fin (of_int \<lceil>a\<rceil>)"
| "js_ceil x = x"

text \<open>
  A natural number that the program holds as a number: a loop bound, a count, a
  length, an index.
\<close>

definition num :: "nat \<Rightarrow> jsnum" where
  "num n = Fin (real n)"

section \<open>The coordinate mapper\<close>

text \<open>
  \<^verbatim>\<open>function map(s1, s2, t1, t2, s) { return t1 + (s - s1) / (s2 - s1) * (t2 - t1); }\<close>
\<close>

definition map_js :: "jsnum \<Rightarrow> jsnum \<Rightarrow> jsnum \<Rightarrow> jsnum \<Rightarrow> jsnum \<Rightarrow> jsnum" where
  "map_js s1 s2 t1 t2 s =
     js_add t1 (js_mul (js_div (js_sub s s1) (js_sub s2 s1)) (js_sub t2 t1))"

text \<open>
  The outcome of a call: a value returned, or an error thrown. The first two errors
  are the ones the specification names; \<open>RangeError\<close> is the one an array
  constructor throws. The body of \<^verbatim>\<open>map\<close> is one arithmetic expression on numbers,
  with no \<^verbatim>\<open>throw\<close>, and arithmetic on numbers throws nothing: every call returns.
\<close>

datatype error = DegenerateRangeError | EmptyHistogramError | RangeError

definition map_outcome ::
  "jsnum \<Rightarrow> jsnum \<Rightarrow> jsnum \<Rightarrow> jsnum \<Rightarrow> jsnum \<Rightarrow> error + jsnum" where
  "map_outcome s1 s2 t1 t2 s = Inr (map_js s1 s2 t1 t2 s)"

section \<open>The escape-time evaluator\<close>

text \<open>
  The counter \<open>n\<close> of \<^verbatim>\<open>mandel\<close> is a number that starts at 0, so it holds a natural
  number; \<^verbatim>\<open>n++\<close> stores \<open>n + 1\<close> rounded to binary64. (An infinity cannot arise
  from a counter that starts at 0; the last case is never taken.)
\<close>

definition incr :: "nat \<Rightarrow> nat" where
  "incr n = (case rd (real n + 1) of Fin v \<Rightarrow> nat \<lfloor>v\<rfloor> | _ \<Rightarrow> n)"

text \<open>
  The loop of \<^verbatim>\<open>mandel\<close>, on the variables \<open>a\<close>, \<open>b\<close> and \<open>n\<close>:
  \<^verbatim>\<open>
  while (n < max) {
      const a2 = a * a
      const b2 = b * b
      if (a2 + b2 > 4) return n
      b = 2 * a * b + y
      a = a2 - b2 + x
      n++
  }
  return n
  \<close>
  The new \<open>b\<close> is computed from the old \<open>a\<close>, and the new \<open>a\<close> from the squares
  taken before either assignment. The parameter \<^verbatim>\<open>max\<close> is \<open>maxIter\<close> here. The
  loop need not end: a call that does not return has the value \<open>None\<close>.
\<close>

partial_function (option) mandel_loop ::
  "jsnum \<Rightarrow> jsnum \<Rightarrow> nat \<Rightarrow> jsnum \<Rightarrow> jsnum \<Rightarrow> nat \<Rightarrow> nat option" where
  "mandel_loop x y maxIter a b n =
     (if n < maxIter then
        (if js_gt (js_add (js_mul a a) (js_mul b b)) (Fin 4) then Some n
         else mandel_loop x y maxIter
                (js_add (js_sub (js_mul a a) (js_mul b b)) x)
                (js_add (js_mul (js_mul (Fin 2) a) b) y)
                (incr n))
      else Some n)"

definition mandel :: "jsnum \<Rightarrow> jsnum \<Rightarrow> nat \<Rightarrow> nat option" where
  "mandel x y maxIter = mandel_loop x y maxIter x y 0"

section \<open>The histogram normalizer\<close>

text \<open>
  Arrays of numbers. \<^verbatim>\<open>new Array(max).fill(0)\<close> throws a \<open>RangeError\<close> unless
  \<open>max\<close> is an array length, that is an integer below \<open>2\<^sup>3\<^sup>2\<close>. Reading an index
  that holds nothing gives \<^verbatim>\<open>undefined\<close>, which every arithmetic operator converts
  to \<open>NaN\<close>; the arrays of \<^verbatim>\<open>normalize\<close> are read only as operands of \<^verbatim>\<open>+\<close>,
  \<^verbatim>\<open>++\<close> and \<^verbatim>\<open>/\<close>, so such a read is \<open>NaN\<close> here. Writing at the length or
  beyond extends the array.
\<close>

definition new_Array_fill :: "nat \<Rightarrow> jsnum \<Rightarrow> error + jsnum list" where
  "new_Array_fill len v = (if len < 2 ^ 32 then Inr (replicate len v) else Inl RangeError)"

definition arr_get :: "jsnum list \<Rightarrow> nat \<Rightarrow> jsnum" where
  "arr_get xs i = (if i < length xs then xs ! i else NaN)"

definition arr_set :: "jsnum list \<Rightarrow> nat \<Rightarrow> jsnum \<Rightarrow> jsnum list" where
  "arr_set xs i v =
     (if i < length xs then xs[i := v] else xs @ replicate (i - length xs) NaN @ [v])"

text \<open>
  \<^verbatim>\<open>ns.filter(n => n < max).forEach(n => hist[n]++)\<close>, on the array \<open>hist\<close>. The
  escape counts \<open>ns\<close> are natural numbers; \<^verbatim>\<open>hist[n]++\<close> stores the entry plus one,
  rounded.
\<close>

definition hist_fill :: "nat list \<Rightarrow> nat \<Rightarrow> jsnum list \<Rightarrow> jsnum list" where
  "hist_fill ns maxIter hist =
     fold (\<lambda>n hist. arr_set hist n (js_add (arr_get hist n) (Fin 1)))
       (filter (\<lambda>n. n < maxIter) ns) hist"

text \<open>
  \<^verbatim>\<open>
  cumul[0] = hist[0]
  for (let i = 1; i < max; i++) {
      cumul[i] = cumul[i - 1] + hist[i]
  }
  \<close>
  on the array \<open>cumul\<close>. The counter \<open>i\<close> stays below \<open>max\<close>, an array length, where
  \<^verbatim>\<open>i++\<close> is exact.
\<close>

function cumul_loop :: "jsnum list \<Rightarrow> nat \<Rightarrow> nat \<Rightarrow> jsnum list \<Rightarrow> jsnum list" where
  "cumul_loop hist maxIter i cumul =
     (if i < maxIter then
        cumul_loop hist maxIter (i + 1)
          (arr_set cumul i (js_add (arr_get cumul (i - 1)) (arr_get hist i)))
      else cumul)"
  by pat_completeness auto
termination
  by (relation "measure (\<lambda>(hist, maxIter, i, cumul). maxIter - i)") auto

declare cumul_loop.simps [simp del]

definition cumul_fill :: "jsnum list \<Rightarrow> nat \<Rightarrow> jsnum list \<Rightarrow> jsnum list" where
  "cumul_fill hist maxIter cumul =
     cumul_loop hist maxIter 1 (arr_set cumul 0 (arr_get hist 0))"

text \<open>
  \<^verbatim>\<open>
  function normalize(ns, max) {
      const hist = new Array(max).fill(0)
      ns.filter(n => n < max).forEach(n => hist[n]++)
      const cumul = new Array(max).fill(0)
      ...
      const div=cumul[cumul.length-1] / max
      return ns.map(n => (n === max) ? max : Math.ceil(cumul[n] / div))
  }
  \<close>
  The call throws when the first array cannot be made. The array \<open>cumul\<close> has at
  least one entry, the one written at index 0.
\<close>

definition normalize :: "nat list \<Rightarrow> nat \<Rightarrow> error + jsnum list" where
  "normalize ns maxIter =
     (case new_Array_fill maxIter (Fin 0) of
        Inl e \<Rightarrow> Inl e
      | Inr hist0 \<Rightarrow>
          (let hist = hist_fill ns maxIter hist0
           in case new_Array_fill maxIter (Fin 0) of
                Inl e \<Rightarrow> Inl e
              | Inr cumul0 \<Rightarrow>
                  (let cumul = cumul_fill hist maxIter cumul0;
                       dv = js_div (arr_get cumul (length cumul - 1)) (num maxIter)
                   in Inr (map (\<lambda>n. if n = maxIter then num maxIter
                                      else js_ceil (js_div (arr_get cumul n) dv)) ns))))"

section \<open>The image composer\<close>

text \<open>
  The first part of \<^verbatim>\<open>createMandelImage\<close>, which builds the escape counts:
  \<^verbatim>\<open>
  const nValues = []
  for (let r = 0; r < h; r++) {
      const y = map(0, h, y1, y2, r)
      for (let c = 0; c < w; c++) {
          const x = map(0, w, x1, x2, c)
          nValues.push(mandel(x, y, max))
      }
  }
  \<close>
  The grid size \<open>w\<close>, \<open>h\<close> is a pair of natural numbers. The inner loop runs on the
  column \<open>c\<close> and the outer one on the row \<open>r\<close>, each pushing onto \<open>nValues\<close>. A
  call of \<^verbatim>\<open>mandel\<close> that does not return leaves the loops, and the function,
  without a result: the value \<open>None\<close>.
\<close>

function cols_loop ::
  "nat \<Rightarrow> jsnum \<Rightarrow> jsnum \<Rightarrow> jsnum \<Rightarrow> nat \<Rightarrow> nat \<Rightarrow> nat list \<Rightarrow> nat list option" where
  "cols_loop w x1 x2 y maxIter c nValues =
     (if c < w then
        (case mandel (map_js (Fin 0) (num w) x1 x2 (num c)) y maxIter of
           None \<Rightarrow> None
         | Some n \<Rightarrow> cols_loop w x1 x2 y maxIter (c + 1) (nValues @ [n]))
      else Some nValues)"
  by pat_completeness auto
termination
  by (relation "measure (\<lambda>(w, x1, x2, y, maxIter, c, nValues). w - c)") auto

declare cols_loop.simps [simp del]

function rows_loop ::
  "nat \<Rightarrow> nat \<Rightarrow> jsnum \<Rightarrow> jsnum \<Rightarrow> jsnum \<Rightarrow> jsnum \<Rightarrow> nat \<Rightarrow> nat \<Rightarrow> nat list \<Rightarrow> nat list option" where
  "rows_loop w h x1 x2 y1 y2 maxIter r nValues =
     (if r < h then
        (case cols_loop w x1 x2 (map_js (Fin 0) (num h) y1 y2 (num r)) maxIter 0 nValues of
           None \<Rightarrow> None
         | Some nValues' \<Rightarrow> rows_loop w h x1 x2 y1 y2 maxIter (r + 1) nValues')
      else Some nValues)"
  by pat_completeness auto
termination
  by (relation "measure (\<lambda>(w, h, x1, x2, y1, y2, maxIter, r, nValues). h - r)") auto

declare rows_loop.simps [simp del]

definition createMandelImage_nValues ::
  "nat \<Rightarrow> nat \<Rightarrow> jsnum \<Rightarrow> jsnum \<Rightarrow> jsnum \<Rightarrow> jsnum \<Rightarrow> nat \<Rightarrow> nat list option" where
  "createMandelImage_nValues w h x1 x2 y1 y2 maxIter = rows_loop w h x1 x2 y1 y2 maxIter 0 []"

text \<open>
  \<^verbatim>\<open>const nNorm = normalize(nValues, max)\<close>. The image data is painted from
  \<open>nNorm\<close>, one pixel for each entry, in the same order; the image is represented
  by \<open>nNorm\<close> here, and the conversion of an entry to a colour is not modelled.
  The outcome is \<open>None\<close> when the counts are never all built, an error when
  \<^verbatim>\<open>normalize\<close> throws, and the image otherwise.
\<close>

definition createMandelImage ::
  "nat \<Rightarrow> nat \<Rightarrow> jsnum \<Rightarrow> jsnum \<Rightarrow> jsnum \<Rightarrow> jsnum \<Rightarrow> nat \<Rightarrow> (error + jsnum list) option" where
  "createMandelImage w h x1 x2 y1 y2 maxIter =
     (case createMandelImage_nValues w h x1 x2 y1 y2 maxIter of
        None \<Rightarrow> None
      | Some nValues \<Rightarrow> Some (normalize nValues maxIter))"

section \<open>The viewport controller\<close>

text \<open>
  The constants of \<^verbatim>\<open>onload\<close>: \<^verbatim>\<open>w = 1900\<close>, \<^verbatim>\<open>h = 870\<close>, \<^verbatim>\<open>ratio = w / h\<close> and
  \<^verbatim>\<open>max = 500\<close>.
\<close>

definition canvas_w :: nat where
  "canvas_w = 1900"

definition canvas_h :: nat where
  "canvas_h = 870"

definition ratio :: jsnum where
  "ratio = js_div (num canvas_w) (num canvas_h)"

definition canvas_max :: nat where
  "canvas_max = 500"

text \<open>
  The variables the handlers share: the two ranges, the corner \<open>start\<close>, the button
  flag \<open>mDown\<close> and the image \<open>imageData\<close>, which holds the outcome of the last call
  of \<^verbatim>\<open>createMandelImage\<close>: with the constants of \<^verbatim>\<open>onload\<close> every call returns
  an image, so that a handler runs to its end. What the canvas shows beyond the
  image is the selection rectangle last stroked, if any: \<open>overlay\<close> holds its \<open>x\<close>,
  \<open>y\<close>, width and height, and \<^verbatim>\<open>redraw()\<close>, which paints the image over the canvas,
  erases it.
\<close>

record state =
  xRange :: "jsnum \<times> jsnum"
  yRange :: "jsnum \<times> jsnum"
  imageData :: "(error + jsnum list) option"
  mDown :: bool
  start :: "jsnum \<times> jsnum"
  overlay :: "(jsnum \<times> jsnum \<times> jsnum \<times> jsnum) option"

text \<open>
  A mouse event, with what the handlers read of it: \<^verbatim>\<open>clientX\<close>, \<^verbatim>\<open>clientY\<close>, and
  the \<^verbatim>\<open>left\<close> and \<^verbatim>\<open>top\<close> of the canvas's bounding rectangle when the event is
  handled. The four are finite numbers. A key event is its \<^verbatim>\<open>key\<close>.
\<close>

record mouse_event =
  clientX :: real
  clientY :: real
  rect_left :: real
  rect_top :: real

datatype event =
  MouseDown mouse_event | MouseMove mouse_event | MouseUp mouse_event | KeyDown string

definition update :: "state \<Rightarrow> state" where
  "update s =
     (let (x1, x2) = xRange s; (y1, y2) = yRange s
      in s\<lparr>imageData := createMandelImage canvas_w canvas_h x1 x2 y1 y2 canvas_max\<rparr>)"

definition redraw :: "state \<Rightarrow> state" where
  "redraw s = s\<lparr>overlay := None\<rparr>"

definition canvasPos :: "mouse_event \<Rightarrow> jsnum \<times> jsnum" where
  "canvasPos e =
     (js_sub (Fin (clientX e)) (Fin (rect_left e)), js_sub (Fin (clientY e)) (Fin (rect_top e)))"

definition endPos :: "state \<Rightarrow> mouse_event \<Rightarrow> jsnum \<times> jsnum" where
  "endPos s e =
     (let x = fst (canvasPos e);
          y = js_add (snd (start s)) (js_div (js_sub x (fst (start s))) ratio)
      in (x, y))"

definition realPos :: "state \<Rightarrow> jsnum \<times> jsnum \<Rightarrow> jsnum \<times> jsnum" where
  "realPos s pos =
     (let x = fst pos; y = snd pos;
          (x1, x2) = xRange s; (y1, y2) = yRange s
      in (map_js (Fin 0) (num canvas_w) x1 x2 x, map_js (Fin 0) (num canvas_h) y1 y2 y))"

definition mouseDown :: "state \<Rightarrow> mouse_event \<Rightarrow> state" where
  "mouseDown s e = s\<lparr>start := canvasPos e, mDown := True\<rparr>"

definition mouseMove :: "state \<Rightarrow> mouse_event \<Rightarrow> state" where
  "mouseMove s e =
     (if mDown s then
        (let end = endPos s e;
             w = js_sub (fst end) (fst (start s));
             h = js_sub (snd end) (snd (start s))
         in if js_gt w (Fin 2)
            then (redraw s)\<lparr>overlay := Some (fst (start s), snd (start s), w, h)\<rparr>
            else s)
      else s)"

definition mouseUp :: "state \<Rightarrow> mouse_event \<Rightarrow> state" where
  "mouseUp s e =
     (let end = endPos s e;
          w = js_sub (fst end) (fst (start s));
          s' = (if js_gt w (Fin 2) then
                  (let newRealStart = realPos s (start s);
                       newRealEnd = realPos s end
                   in s\<lparr>xRange := (fst newRealStart, fst newRealEnd),
                         yRange := (snd newRealStart, snd newRealEnd)\<rparr>)
                else s)
      in (redraw (update s'))\<lparr>mDown := False\<rparr>)"

definition zoomOut :: "jsnum \<times> jsnum \<Rightarrow> jsnum \<times> jsnum" where
  "zoomOut r =
     (let d = js_sub (snd r) (fst r);
          mid = js_div (js_add (fst r) (snd r)) (Fin 2)
      in (js_sub mid d, js_add mid d))"

definition keyDown :: "state \<Rightarrow> string \<Rightarrow> state" where
  "keyDown s key =
     (if key = ''z'' then
        redraw (update (s\<lparr>xRange := zoomOut (xRange s), yRange := zoomOut (yRange s)\<rparr>))
      else s)"

text \<open>
  The state when \<^verbatim>\<open>onload\<close> has run: the initial ranges, the first image computed
  and drawn, no selection. The variable \<open>imageData\<close> holds nothing before the first
  \<^verbatim>\<open>update()\<close>.
\<close>

definition onload :: state where
  "onload =
     redraw (update
       \<lparr>xRange = (Fin (- 2), Fin 2),
        yRange = (js_div (Fin (- 2)) ratio, js_div (Fin 2) ratio),
        imageData = None,
        mDown = False,
        start = (Fin 0, Fin 0),
        overlay = None\<rparr>)"

text \<open>The listeners: one event handled at a time, each to completion.\<close>

fun step :: "state \<Rightarrow> event \<Rightarrow> state" where
  "step s (MouseDown e) = mouseDown s e"
| "step s (MouseMove e) = mouseMove s e"
| "step s (MouseUp e) = mouseUp s e"
| "step s (KeyDown key) = keyDown s key"

definition run :: "state \<Rightarrow> event list \<Rightarrow> state" where
  "run s evs = foldl step s evs"

section \<open>Notions used in the proofs\<close>

text \<open>
  The value of a finite number. A number that some additions of at most \<open>k\<close>
  ones have produced: finite, a double, between 0 and \<open>k * 2\<^sup>5\<^sup>3\<close>. What holds of
  the array \<open>cumul\<close> when its first \<open>i\<close> entries are written: each is such a
  number, at least the entry of \<open>hist\<close> at its index and at least every entry
  before it. The array \<open>cumul\<close> that \<^verbatim>\<open>normalize\<close> builds when the two arrays can be
  made.
\<close>

fun val :: "jsnum \<Rightarrow> real" where
  "val (Fin a) = a"
| "val x = 0"

definition is_sum :: "jsnum \<Rightarrow> nat \<Rightarrow> bool" where
  "is_sum v k = (finite_js v \<and> rne (val v) = val v \<and> 0 \<le> val v \<and> val v \<le> real k * 2 ^ 53)"

definition cumul_inv :: "jsnum list \<Rightarrow> nat \<Rightarrow> nat \<Rightarrow> jsnum list \<Rightarrow> bool" where
  "cumul_inv hist maxIter i cumul =
     (length cumul = maxIter \<and>
      (\<forall>k<i. is_sum (cumul ! k) (k + 1) \<and> val (hist ! k) \<le> val (cumul ! k) \<and>
             (\<forall>k'\<le>k. val (cumul ! k') \<le> val (cumul ! k))))"

definition cumul_built :: "nat list \<Rightarrow> nat \<Rightarrow> jsnum list" where
  "cumul_built ns maxIter =
     cumul_fill (hist_fill ns maxIter (replicate maxIter (Fin 0))) maxIter (replicate maxIter (Fin 0))"

text \<open>A number that is at least the real \<open>c\<close>: a finite one from \<open>c\<close> on, or \<open>+\<infinity>\<close>.\<close>

definition at_least :: "real \<Rightarrow> jsnum \<Rightarrow> bool" where
  "at_least c v = (v = PInf \<or> (\<exists>r. v = Fin r \<and> c \<le> r))"

text \<open>
  The outcomes of \<^verbatim>\<open>mandel\<close> on the pixels of row \<open>r\<close>, from column 0 to column
  \<open>w - 1\<close>.
\<close>

definition grid_row ::
  "nat \<Rightarrow> nat \<Rightarrow> jsnum \<Rightarrow> jsnum \<Rightarrow> jsnum \<Rightarrow> jsnum \<Rightarrow> nat \<Rightarrow> nat \<Rightarrow> nat option list" where
  "grid_row w h x1 x2 y1 y2 maxIter r =
     map (\<lambda>c. mandel (map_js (Fin 0) (num w) x1 x2 (num c))
                       (map_js (Fin 0) (num h) y1 y2 (num r)) maxIter) [0..<w]"

text \<open>
  The two inversions of a canvas position under given ranges: what \<^verbatim>\<open>realPos\<close>
  computes, with the ranges as parameters.
\<close>

definition inversions :: "jsnum \<times> jsnum \<Rightarrow> jsnum \<times> jsnum \<Rightarrow> jsnum \<times> jsnum \<Rightarrow> jsnum \<times> jsnum" where
  "inversions xr yr pos =
     (map_js (Fin 0) (num canvas_w) (fst xr) (snd xr) (fst pos),
      map_js (Fin 0) (num canvas_h) (fst yr) (snd yr) (snd pos))"

text \<open>An event whose handler writes neither a range nor \<open>start\<close>.\<close>

fun quiet :: "event \<Rightarrow> bool" where
  "quiet (MouseMove e) = True"
| "quiet (KeyDown key) = (key \<noteq> ''z'')"
| "quiet (MouseDown e) = False"
| "quiet (MouseUp e) = False"

text \<open>A mouse event at \<open>(x, y)\<close>, the canvas rectangle starting at the origin.\<close>

definition ev_at :: "real \<Rightarrow> real \<Rightarrow> mouse_event" where
  "ev_at x y = \<lparr>clientX = x, clientY = y, rect_left = 0, rect_top = 0\<rparr>"

text \<open>
  One selection three pixels wide, from the corner of the canvas: a mouse down at
  \<open>(0, 0)\<close> and a mouse up at \<open>x = 3\<close>.
\<close>

definition select3 :: "state \<Rightarrow> state" where
  "select3 s = step (step s (MouseDown (ev_at 0 0))) (MouseUp (ev_at 3 0))"

section \<open>Properties of rounding\<close>

lemma expo_bounds_ge1:
  assumes "1 \<le> x"
  shows "2 powi expo x \<le> x \<and> x < 2 powi (expo x + 1)"
proof -
  let ?n = "\<lfloor>x\<rfloor>"
  have n: "0 < ?n" using assms by simp
  have b1: "1 \<le> bitlen ?n" using n bitlen_eq_zero_iff [of ?n] bitlen_nonneg [of ?n] by linarith
  from bitlen_bounds [OF n]
  have lo: "(2::int) ^ nat (bitlen ?n - 1) \<le> ?n" and hi: "?n < 2 ^ nat (bitlen ?n)" by simp_all
  have e: "expo x = bitlen ?n - 1" using assms by (simp add: expo_def)
  have "2 powi expo x = (2::real) ^ nat (bitlen ?n - 1)"
    using b1 by (simp add: e power_int_def)
  also have "\<dots> = of_int ((2::int) ^ nat (bitlen ?n - 1))" by simp
  also have "\<dots> \<le> of_int ?n" using lo by (simp only: of_int_le_iff)
  also have "\<dots> \<le> x" by simp
  finally have A: "2 powi expo x \<le> x" .
  have "?n + 1 \<le> 2 ^ nat (bitlen ?n)" using hi by simp
  then have "of_int (?n + 1) \<le> (of_int ((2::int) ^ nat (bitlen ?n)) :: real)"
    by (simp only: of_int_le_iff)
  moreover have "x < of_int (?n + 1)" by linarith
  ultimately have "x < (of_int ((2::int) ^ nat (bitlen ?n)) :: real)" by linarith
  then have "x < (2::real) ^ nat (bitlen ?n)" by simp
  also have "\<dots> = 2 powi (expo x + 1)"
    using b1 by (simp add: e power_int_def)
  finally show ?thesis using A by simp
qed

lemma expo_bounds_lt1:
  assumes "0 < x" "x < 1"
  shows "2 powi expo x \<le> x \<and> x < 2 powi (expo x + 1)"
proof -
  let ?m = "\<lceil>1 / x\<rceil>"
  have inv: "1 < 1 / x" using assms by simp
  then have m: "2 \<le> ?m" by linarith
  then have m1: "0 < ?m - 1" by simp
  let ?k = "bitlen (?m - 1)"
  have k1: "1 \<le> ?k" using m1 bitlen_eq_zero_iff [of "?m - 1"] bitlen_nonneg [of "?m - 1"] by linarith
  from bitlen_bounds [OF m1]
  have lo: "(2::int) ^ nat (?k - 1) \<le> ?m - 1" and hi: "?m - 1 < 2 ^ nat ?k" by simp_all
  have e: "expo x = - ?k" using assms by (simp add: expo_def)
  have "1 / x \<le> of_int ?m" by simp
  also have "of_int ?m \<le> (of_int ((2::int) ^ nat ?k) :: real)"
  proof -
    have "?m \<le> 2 ^ nat ?k" using hi by simp
    then show ?thesis by (simp only: of_int_le_iff)
  qed
  finally have "1 / x \<le> 2 ^ nat ?k" by simp
  then have "1 \<le> 2 ^ nat ?k * x" using assms(1) by (simp add: pos_divide_le_eq)
  then have "1 / 2 ^ nat ?k \<le> x" by (simp add: pos_divide_le_eq mult.commute)
  moreover have "2 powi expo x = 1 / (2::real) ^ nat ?k"
    using k1 by (simp add: e power_int_def inverse_eq_divide power_one_over)
  ultimately have A: "2 powi expo x \<le> x" by simp
  have "(of_int ((2::int) ^ nat (?k - 1)) :: real) \<le> of_int (?m - 1)"
    using lo by (simp only: of_int_le_iff)
  moreover have "of_int (?m - 1) < 1 / x" by linarith
  ultimately have "(2::real) ^ nat (?k - 1) < 1 / x" by simp
  then have "2 ^ nat (?k - 1) * x < 1" using assms(1) by (simp add: pos_less_divide_eq)
  then have "x < 1 / 2 ^ nat (?k - 1)" by (simp add: pos_less_divide_eq mult.commute)
  moreover have "2 powi (expo x + 1) = 1 / (2::real) ^ nat (?k - 1)"
  proof (cases "?k = 1")
    case True
    then show ?thesis by (simp add: e)
  next
    case False
    with k1 have "- ?k + 1 < 0" by simp
    then show ?thesis
      using k1 by (simp add: e power_int_def inverse_eq_divide nat_diff_distrib power_one_over)
  qed
  ultimately show ?thesis using A by simp
qed

lemma expo_bounds:
  assumes "0 < x"
  shows "2 powi expo x \<le> x" and "x < 2 powi (expo x + 1)"
  using assms expo_bounds_ge1 [of x] expo_bounds_lt1 [of x] by (cases "1 \<le> x"; simp)+

lemma expo_unique:
  assumes "2 powi e \<le> x" "x < 2 powi (e + 1)"
  shows "expo x = e"
proof -
  have pos: "0 < x" using assms(1) zero_less_power_int [of "2::real" e] by linarith
  note b = expo_bounds [OF pos]
  have "2 powi e < (2::real) powi (expo x + 1)" using assms(1) b(2) by linarith
  then have "e < expo x + 1"
    by (metis power_int_increasing linorder_not_less one_le_numeral)
  moreover have "2 powi expo x < (2::real) powi (e + 1)" using assms(2) b(1) by linarith
  then have "expo x < e + 1"
    by (metis power_int_increasing linorder_not_less one_le_numeral)
  ultimately show ?thesis by simp
qed

lemma expo_mono:
  assumes "0 < x" "x \<le> y"
  shows "expo x \<le> expo y"
proof -
  have "2 powi expo x \<le> x" using expo_bounds(1) [OF assms(1)] .
  also have "x \<le> y" by fact
  also have "y < 2 powi (expo y + 1)" using expo_bounds(2) [of y] assms by simp
  finally have "expo x < expo y + 1"
    by (metis power_int_increasing linorder_not_less one_le_numeral)
  then show ?thesis by simp
qed


lemma round_even_of_int [simp]: "round_even (of_int z) = z"
  by (simp add: round_even_def)

lemma round_even_0 [simp]: "round_even 0 = 0"
  by (simp add: round_even_def)

lemma round_even_bounds: "\<lfloor>q\<rfloor> \<le> round_even q" "round_even q \<le> \<lfloor>q\<rfloor> + 1"
  by (simp_all add: round_even_def Let_def)

lemma round_even_le_ceiling: "round_even q \<le> \<lceil>q\<rceil>"
proof (cases "q = of_int \<lfloor>q\<rfloor>")
  case True
  then have "round_even q = \<lfloor>q\<rfloor>" by (metis round_even_of_int)
  then show ?thesis by (simp add: floor_le_ceiling)
next
  case False
  then have "\<lceil>q\<rceil> = \<lfloor>q\<rfloor> + 1" by (simp add: ceiling_altdef)
  then show ?thesis using round_even_bounds(2) [of q] by simp
qed

lemma round_even_mono:
  assumes "q \<le> q'"
  shows "round_even q \<le> round_even q'"
proof (cases "\<lfloor>q\<rfloor> = \<lfloor>q'\<rfloor>")
  case True
  have "q - of_int \<lfloor>q\<rfloor> \<le> q' - of_int \<lfloor>q\<rfloor>" using assms by simp
  then show ?thesis
    unfolding round_even_def Let_def True [symmetric] by auto
next
  case False
  with assms have "\<lfloor>q\<rfloor> < \<lfloor>q'\<rfloor>" using floor_mono [OF assms] by linarith
  then have "round_even q \<le> \<lfloor>q'\<rfloor>" using round_even_bounds(2) [of q] by linarith
  then show ?thesis using round_even_bounds(1) [of q'] by linarith
qed

lemma round_even_minus: "round_even (- q) = - round_even q"
proof (cases "q = of_int \<lfloor>q\<rfloor>")
  case True
  then obtain z where "q = of_int z" ..
  then show ?thesis by (simp flip: of_int_minus)
next
  case False
  then have fl: "\<lfloor>- q\<rfloor> = - \<lfloor>q\<rfloor> - 1"
    by (metis ceiling_altdef ceiling_def add_diff_cancel_right' minus_diff_eq
        uminus_add_conv_diff)
  show ?thesis
    unfolding round_even_def Let_def fl by (auto simp: algebra_simps)
qed

lemma round_even_error: "\<bar>of_int (round_even q) - q\<bar> \<le> 1 / 2"
proof -
  have "of_int \<lfloor>q\<rfloor> \<le> q" "q < of_int \<lfloor>q\<rfloor> + 1" by linarith+
  then show ?thesis
    unfolding round_even_def Let_def by auto
qed

lemma ulp_exp_minus [simp]: "ulp_exp (- x) = ulp_exp x"
  by (simp add: ulp_exp_def)

lemma rne_minus: "rne (- x) = - rne x"
  by (simp add: rne_def round_even_minus)

lemma rne_0 [simp]: "rne 0 = 0"
  by (simp add: rne_def)

lemma rne_nonneg: "0 \<le> x \<Longrightarrow> 0 \<le> rne x"
proof -
  assume "0 \<le> x"
  then have "0 \<le> x / 2 powi ulp_exp x" by simp
  then have "0 \<le> \<lfloor>x / 2 powi ulp_exp x\<rfloor>" by simp
  then have "0 \<le> round_even (x / 2 powi ulp_exp x)"
    using round_even_bounds(1) [of "x / 2 powi ulp_exp x"] by linarith
  then show ?thesis by (simp add: rne_def)
qed


lemma rne_le_grid:
  assumes "x \<le> of_int m * 2 powi ulp_exp x"
  shows "rne x \<le> of_int m * 2 powi ulp_exp x"
proof -
  have u: "0 < (2::real) powi ulp_exp x" by simp
  from assms have "x / 2 powi ulp_exp x \<le> of_int m"
    using u by (simp add: pos_divide_le_eq)
  then have "round_even (x / 2 powi ulp_exp x) \<le> m"
    using round_even_mono [of "x / 2 powi ulp_exp x" "of_int m"] by simp
  then have "(of_int (round_even (x / 2 powi ulp_exp x)) :: real) \<le> of_int m"
    by (simp only: of_int_le_iff)
  then show ?thesis
    unfolding rne_def using u by (simp only: mult_le_cancel_right_pos)
qed

lemma rne_ge_grid:
  assumes "of_int m * 2 powi ulp_exp x \<le> x"
  shows "of_int m * 2 powi ulp_exp x \<le> rne x"
proof -
  have u: "0 < (2::real) powi ulp_exp x" by simp
  from assms have "of_int m \<le> x / 2 powi ulp_exp x"
    using u by (simp add: pos_le_divide_eq)
  then have "m \<le> round_even (x / 2 powi ulp_exp x)"
    using round_even_mono [of "of_int m" "x / 2 powi ulp_exp x"] by simp
  then have "(of_int m :: real) \<le> of_int (round_even (x / 2 powi ulp_exp x))"
    by (simp only: of_int_le_iff)
  then show ?thesis
    unfolding rne_def using u by (simp only: mult_le_cancel_right_pos)
qed

lemma pow2_split: "(2::real) powi (a + b) = 2 powi a * 2 powi b"
  by (simp add: power_int_add)

lemma rne_mono_pos:
  assumes "0 < x" "x \<le> y"
  shows "rne x \<le> rne y"
proof -
  have y: "0 < y" using assms by simp
  let ?ex = "max (expo x) (- 1022)" and ?ey = "max (expo y) (- 1022)"
  have ux: "ulp_exp x = ?ex - 52" and uy: "ulp_exp y = ?ey - 52"
    using assms y by (simp_all add: ulp_exp_def)
  have le: "?ex \<le> ?ey" using expo_mono [OF assms] by simp
  show ?thesis
  proof (cases "?ex = ?ey")
    case True
    then have same: "ulp_exp x = ulp_exp y" by (simp add: ux uy)
    have "x / 2 powi ulp_exp y \<le> y / 2 powi ulp_exp y"
      using assms(2) by (simp add: divide_right_mono)
    then have "round_even (x / 2 powi ulp_exp y) \<le> round_even (y / 2 powi ulp_exp y)"
      by (rule round_even_mono)
    then have "(of_int (round_even (x / 2 powi ulp_exp y)) :: real)
               \<le> of_int (round_even (y / 2 powi ulp_exp y))"
      by (simp only: of_int_le_iff)
    then show ?thesis
      unfolding rne_def same by (simp add: mult_right_mono)
  next
    case False
    with le have lt: "?ex + 1 \<le> ?ey" by simp
    then have ey: "?ey = expo y" by simp
    have "x < 2 powi (expo x + 1)" using expo_bounds(2) [OF assms(1)] .
    also have "\<dots> \<le> 2 powi (?ex + 1)" by (intro power_int_increasing) simp_all
    finally have "x \<le> 2 powi (?ex + 1)" by simp
    also have "(2::real) powi (?ex + 1) = of_int (2 ^ 53) * 2 powi ulp_exp x"
    proof -
      have "?ex + 1 = 53 + ulp_exp x" by (simp add: ux)
      then show ?thesis by (simp only: pow2_split) simp
    qed
    finally have "rne x \<le> of_int (2 ^ 53) * 2 powi ulp_exp x" by (rule rne_le_grid)
    also have "\<dots> = 2 powi (?ex + 1)"
    proof -
      have "?ex + 1 = 53 + ulp_exp x" by (simp add: ux)
      then show ?thesis by (simp only: pow2_split) simp
    qed
    also have "\<dots> \<le> 2 powi ?ey" using lt by (intro power_int_increasing) simp_all
    also have "(2::real) powi ?ey = of_int (2 ^ 52) * 2 powi ulp_exp y"
    proof -
      have "?ey = 52 + ulp_exp y" by (simp add: uy)
      then show ?thesis by (simp only: pow2_split) simp
    qed
    also have "\<dots> \<le> rne y"
    proof (rule rne_ge_grid)
      have "of_int (2 ^ 52) * 2 powi ulp_exp y = (2::real) powi ?ey"
      proof -
        have "?ey = 52 + ulp_exp y" by (simp add: uy)
        then show ?thesis by (simp only: pow2_split) simp
      qed
      also have "\<dots> \<le> y" unfolding ey using expo_bounds(1) [OF y] .
      finally show "of_int (2 ^ 52) * 2 powi ulp_exp y \<le> y" .
    qed
    finally show ?thesis .
  qed
qed

lemma rne_mono:
  assumes "x \<le> y"
  shows "rne x \<le> rne y"
proof -
  consider "0 < x" | "x \<le> 0" "0 \<le> y" | "y < 0" by linarith
  then show ?thesis
  proof cases
    case 1
    then show ?thesis using assms by (rule rne_mono_pos)
  next
    case 2
    have "0 \<le> rne (- x)" using 2(1) by (intro rne_nonneg) simp
    then have "rne x \<le> 0" by (simp add: rne_minus)
    moreover have "0 \<le> rne y" using 2(2) by (rule rne_nonneg)
    ultimately show ?thesis by simp
  next
    case 3
    then have "rne (- y) \<le> rne (- x)" using assms by (intro rne_mono_pos) simp_all
    then show ?thesis by (simp add: rne_minus)
  qed
qed


lemma rne_exact:
  assumes m: "\<bar>m\<bar> < 2 ^ 53" and k: "- 1074 \<le> k"
  shows "rne (of_int m * 2 powi k) = of_int m * 2 powi k"
proof (cases "m = 0")
  case True
  then show ?thesis by simp
next
  case False
  define x where "x = of_int m * (2::real) powi k"
  define u where "u = ulp_exp x"
  have ax: "\<bar>x\<bar> = of_int \<bar>m\<bar> * 2 powi k" by (simp add: x_def abs_mult)
  have pos: "0 < \<bar>x\<bar>" using False by (simp add: x_def)
  have "(of_int \<bar>m\<bar> :: real) < of_int (2 ^ 53)" using m by (simp only: of_int_less_iff)
  then have "\<bar>x\<bar> < 2 ^ 53 * 2 powi k" unfolding ax by simp
  also have "\<dots> = 2 powi (53 + k)" by (simp only: pow2_split) simp
  finally have "2 powi expo \<bar>x\<bar> < (2::real) powi (53 + k)"
    using expo_bounds(1) [OF pos] by linarith
  then have "expo \<bar>x\<bar> < 53 + k"
    by (metis power_int_increasing linorder_not_less one_le_numeral)
  then have le: "u \<le> k" using k by (simp add: u_def ulp_exp_def)
  define j where "j = nat (k - u)"
  have kj: "k = u + int j" using le by (simp add: j_def)
  have pk: "(2::real) powi k = 2 powi u * 2 ^ j"
    unfolding kj by (simp add: pow2_split)
  have "x / 2 powi u = of_int (m * 2 ^ j)"
    unfolding x_def pk by simp
  then have "round_even (x / 2 powi u) = m * 2 ^ j"
    by (simp only: round_even_of_int)
  then have "rne x = of_int (m * 2 ^ j) * 2 powi u"
    by (simp only: rne_def u_def)
  also have "\<dots> = of_int m * (2 powi u * 2 ^ j)" by simp
  also have "\<dots> = x" by (simp only: pk [symmetric] x_def)
  finally show ?thesis by (simp only: x_def)
qed

lemma rne_of_int: "\<bar>m\<bar> \<le> 2 ^ 53 \<Longrightarrow> rne (of_int m) = of_int m"
proof -
  assume a: "\<bar>m\<bar> \<le> 2 ^ 53"
  show ?thesis
  proof (cases "\<bar>m\<bar> = 2 ^ 53")
    case False
    with a have "\<bar>m\<bar> < 2 ^ 53" by simp
    then show ?thesis using rne_exact [of m 0] by simp
  next
    case True
    then have c: "m = 2 ^ 53 \<or> m = - (2 ^ 53)" by linarith
    then have "(of_int m :: real) = of_int (m div 2) * 2 powi 1" by auto
    moreover have "\<bar>m div 2\<bar> < 2 ^ 53" using c by auto
    ultimately show ?thesis using rne_exact [of "m div 2" 1] by simp
  qed
qed

lemma rne_of_nat: "n \<le> 2 ^ 53 \<Longrightarrow> rne (real n) = real n"
  using rne_of_int [of "int n"] by simp

lemma rne_pow2: "- 1074 \<le> k \<Longrightarrow> rne (2 powi k) = 2 powi k"
  using rne_exact [of 1 k] by simp

lemma rne_grid_bound: "\<bar>round_even (x / 2 powi ulp_exp x)\<bar> \<le> 2 ^ 53"
proof -
  let ?u = "(2::real) powi ulp_exp x"
  have u: "0 < ?u" by simp
  have "\<bar>x\<bar> \<le> 2 ^ 53 * ?u"
  proof (cases "x = 0")
    case True
    then show ?thesis by simp
  next
    case False
    then have "\<bar>x\<bar> < 2 powi (expo \<bar>x\<bar> + 1)" by (intro expo_bounds(2)) simp
    also have "\<dots> \<le> 2 powi (53 + ulp_exp x)"
      by (intro power_int_increasing) (simp_all add: ulp_exp_def)
    also have "\<dots> = 2 ^ 53 * ?u" by (simp only: pow2_split) simp
    finally show ?thesis by simp
  qed
  then have "- (2 ^ 53 * ?u) \<le> x" "x \<le> 2 ^ 53 * ?u" by linarith+
  then have lo: "of_int (- (2 ^ 53)) \<le> x / ?u" and hi: "x / ?u \<le> of_int (2 ^ 53)"
    using u by (simp_all add: pos_divide_le_eq pos_le_divide_eq)
  have "round_even (of_int (- (2 ^ 53))) \<le> round_even (x / ?u)"
    using lo by (rule round_even_mono)
  moreover have "round_even (x / ?u) \<le> round_even (of_int (2 ^ 53))"
    using hi by (rule round_even_mono)
  ultimately have "- (2 ^ 53) \<le> round_even (x / ?u)" "round_even (x / ?u) \<le> 2 ^ 53"
    by (simp_all only: round_even_of_int)
  then show ?thesis by simp
qed

lemma ulp_exp_ge: "- 1074 \<le> ulp_exp x"
  by (simp add: ulp_exp_def)

lemma rne_idem: "rne (rne x) = rne x"
proof -
  let ?K = "round_even (x / 2 powi ulp_exp x)"
  have r: "rne x = of_int ?K * 2 powi ulp_exp x" by (simp add: rne_def)
  show ?thesis
  proof (cases "\<bar>?K\<bar> = 2 ^ 53")
    case False
    with rne_grid_bound [of x] have "\<bar>?K\<bar> < 2 ^ 53" by simp
    then show ?thesis unfolding r using ulp_exp_ge [of x] by (rule rne_exact)
  next
    case True
    then have c: "?K = 2 ^ 53 \<or> ?K = - (2 ^ 53)" by linarith
    then have "(of_int ?K :: real) = of_int (?K div 2) * 2" by auto
    then have r2: "rne x = of_int (?K div 2) * 2 powi (ulp_exp x + 1)"
      unfolding r by (simp add: pow2_split)
    have "\<bar>?K div 2\<bar> < 2 ^ 53" using c by auto
    moreover have "- 1074 \<le> ulp_exp x + 1" using ulp_exp_ge [of x] by simp
    ultimately show ?thesis unfolding r2 by (rule rne_exact)
  qed
qed

lemma rne_eval:
  assumes "2 powi e \<le> \<bar>x\<bar>" "\<bar>x\<bar> < 2 powi (e + 1)" "u = max e (- 1022) - 52"
  shows "rne x = of_int (round_even (x / 2 powi u)) * 2 powi u"
  using expo_unique [OF assms(1,2)] assms(3) by (simp add: rne_def ulp_exp_def)

lemma rne_bounded:
  assumes "\<bar>x\<bar> \<le> 2 powi k" "- 1074 \<le> k"
  shows "\<bar>rne x\<bar> \<le> 2 powi k"
proof -
  have "- (2 powi k) \<le> x" "x \<le> 2 powi k" using assms(1) by linarith+
  then have "rne (- (2 powi k)) \<le> rne x" "rne x \<le> rne (2 powi k)"
    by (simp_all only: rne_mono)
  then show ?thesis
    using rne_pow2 [OF assms(2)] by (simp add: rne_minus)
qed

lemma rd_Fin:
  assumes "\<bar>x\<bar> \<le> 2 powi 1023"
  shows "rd x = Fin (rne x)"
proof -
  have "\<bar>rne x\<bar> \<le> 2 powi 1023" using assms by (rule rne_bounded) simp
  also have "\<dots> < (2::real) ^ 1024" by simp
  finally show ?thesis by (simp add: rd_def)
qed

lemma rd_of_int: "\<bar>m\<bar> \<le> 2 ^ 53 \<Longrightarrow> rd (of_int m) = Fin (of_int m)"
proof -
  assume a: "\<bar>m\<bar> \<le> 2 ^ 53"
  then have "(of_int \<bar>m\<bar> :: real) \<le> of_int (2 ^ 53)" by (simp only: of_int_le_iff)
  then have "\<bar>of_int m :: real\<bar> \<le> 2 ^ 53" by simp
  also have "\<dots> \<le> 2 powi 1023" by simp
  finally show ?thesis using rne_of_int [OF a] by (simp add: rd_Fin)
qed

lemma rd_of_nat: "n \<le> 2 ^ 53 \<Longrightarrow> rd (real n) = Fin (real n)"
  using rd_of_int [of "int n"] by simp

lemma rd_0 [simp]: "rd 0 = Fin 0"
  using rd_of_int [of 0] by simp

lemma rd_1 [simp]: "rd 1 = Fin 1"
  using rd_of_int [of 1] by simp

lemma rd_numeral [simp]: "numeral n \<le> (2 ^ 53 :: int) \<Longrightarrow> rd (numeral n) = Fin (numeral n)"
  using rd_of_int [of "numeral n"] by simp

lemma rd_neg_numeral [simp]:
  "numeral n \<le> (2 ^ 53 :: int) \<Longrightarrow> rd (- numeral n) = Fin (- numeral n)"
  using rd_of_int [of "- numeral n"] by simp

lemma rd_eval:
  assumes "2 powi e \<le> \<bar>x\<bar>" "\<bar>x\<bar> < 2 powi (e + 1)" "u = max e (- 1022) - 52"
    and "r = of_int (round_even (x / 2 powi u)) * 2 powi u" "\<bar>r\<bar> < 2 ^ 1024"
  shows "rd x = Fin r"
  using rne_eval [OF assms(1-3)] assms(4,5) by (simp add: rd_def)

text \<open>The error of rounding is at most half the spacing.\<close>

lemma rne_error: "\<bar>rne x - x\<bar> \<le> 2 powi ulp_exp x / 2"
proof -
  let ?u = "(2::real) powi ulp_exp x"
  have u: "0 < ?u" by simp
  have "rne x - x = (of_int (round_even (x / ?u)) - x / ?u) * ?u"
    using u by (simp add: rne_def algebra_simps)
  then have "\<bar>rne x - x\<bar> = \<bar>of_int (round_even (x / ?u)) - x / ?u\<bar> * ?u"
    using u by (simp add: abs_mult)
  also have "\<dots> \<le> 1 / 2 * ?u"
    using round_even_error [of "x / ?u"] u by (intro mult_right_mono) simp_all
  finally show ?thesis by simp
qed

lemma rne_error_below_8:
  assumes "0 \<le> v" "v < 8"
  shows "\<bar>rne v - v\<bar> \<le> 1 / 2 ^ 51"
proof (cases "v = 0")
  case True
  then show ?thesis by simp
next
  case False
  then have pos: "0 < v" using assms(1) by simp
  have "2 powi expo v \<le> v" using pos by (rule expo_bounds(1))
  also have "v < 2 powi 3" using assms(2) by simp
  finally have "expo v < 3"
    by (metis power_int_increasing linorder_not_less one_le_numeral)
  then have "ulp_exp v \<le> - 50" using pos by (simp add: ulp_exp_def)
  then have "(2::real) powi ulp_exp v \<le> 2 powi (- 50)"
    by (intro power_int_increasing) simp_all
  then have "(2::real) powi ulp_exp v / 2 \<le> 1 / 2 ^ 51"
    by (simp add: power_int_minus inverse_eq_divide)
  with rne_error [of v] show ?thesis by linarith
qed

text \<open>Rounding a numeral expression is a computation on bit lengths and quotients.\<close>

lemma bitlen_numeral: "bitlen (numeral k) = bitlen (numeral k div 2) + 1"
  by (subst compute_bitlen) simp

lemma bitlen_1: "bitlen 1 = 1"
  by (subst compute_bitlen) simp

lemmas rd_compute =
  rd_def rne_def ulp_exp_def expo_def round_even_def Let_def bitlen_numeral bitlen_1

section \<open>Properties of the coordinate mapper\<close>

lemma inf_of_sign_not_finite: "\<not> finite_js (inf_of_sign s)"
  by (simp add: inf_of_sign_def)

lemma js_add_not_finite_right: "\<not> finite_js v \<Longrightarrow> \<not> finite_js (js_add t v)"
  by (cases t; cases v) simp_all

lemma js_mul_not_finite_left: "\<not> finite_js v \<Longrightarrow> \<not> finite_js (js_mul v u)"
  by (cases v; cases u) (simp_all add: inf_of_sign_not_finite)

lemma js_sub_self: "js_sub s1 s1 = Fin 0 \<or> js_sub s1 s1 = NaN"
  by (cases s1) (simp_all add: js_sub_def)

lemma js_div_zero_not_finite: "\<not> finite_js (js_div u (Fin 0))"
  by (cases u) (simp_all add: inf_of_sign_not_finite)

lemma js_div_NaN_not_finite: "\<not> finite_js (js_div u NaN)"
  by (cases u) simp_all

lemma map_js_degenerate: "\<not> finite_js (map_js s1 s1 t1 t2 s)"
proof -
  have "\<not> finite_js (js_div (js_sub s s1) (js_sub s1 s1))"
    using js_sub_self [of s1] js_div_zero_not_finite js_div_NaN_not_finite by auto
  then show ?thesis
    unfolding map_js_def by (intro js_add_not_finite_right js_mul_not_finite_left)
qed

text \<open>
  Claim C4, as stated: \<^verbatim>\<open>map\<close> called with \<open>s1 == s2\<close> signals
  DegenerateRangeError instead of returning a number. It fails: \<open>map(0, 0, 0, 1, 1)\<close>
  computes \<open>0 + (1 - 0) / (0 - 0) * (1 - 0)\<close> and returns the number \<open>Infinity\<close>.
\<close>

theorem map_degenerate_counterexample:
  "map_outcome (Fin 0) (Fin 0) (Fin 0) (Fin 1) (Fin 1) = Inr PInf \<and>
   map_outcome (Fin 0) (Fin 0) (Fin 0) (Fin 1) (Fin 1) \<noteq> Inl DegenerateRangeError"
  by (simp add: map_outcome_def map_js_def js_sub_def inf_of_sign_def)

text \<open>
  Claim C4, amended: \<^verbatim>\<open>map\<close> signals no error. Called with equal source endpoints
  it returns a number that is not finite (\<open>NaN\<close>, \<open>Infinity\<close> or \<open>-Infinity\<close>),
  whatever \<open>t1\<close>, \<open>t2\<close> and \<open>s\<close> are.
\<close>

theorem map_degenerate_returns_non_finite:
  "\<exists>v. map_outcome s1 s1 t1 t2 s = Inr v \<and> \<not> finite_js v"
  by (simp add: map_outcome_def map_js_degenerate)

section \<open>Properties of the escape-time evaluator\<close>

lemma incr_below: "n < 2 ^ 53 \<Longrightarrow> incr n = n + 1"
proof -
  assume "n < 2 ^ 53"
  then have "rd (real (n + 1)) = Fin (real (n + 1))" by (intro rd_of_nat) simp
  then show ?thesis by (simp add: incr_def add.commute)
qed

lemma incr_top: "incr (2 ^ 53) = 2 ^ 53"
proof -
  have "rd (2 ^ 53 + 1) = Fin (2 ^ 53)"
    by (simp add: rd_compute)
  then show ?thesis by (simp add: incr_def)
qed

lemma incr_bounds:
  assumes "n \<le> 2 ^ 53"
  shows "n \<le> incr n" and "incr n \<le> 2 ^ 53" and "incr n \<le> n + 1"
  using assms incr_below [of n] incr_top by (cases "n = 2 ^ 53"; simp)+

lemma mandel_loop_returns:
  assumes "maxIter \<le> 2 ^ 53" "n \<le> maxIter"
  shows "\<exists>r. mandel_loop x y maxIter a b n = Some r \<and> n \<le> r \<and> r \<le> maxIter"
  using assms(2)
proof (induction "maxIter - n" arbitrary: a b n)
  case 0
  then show ?case by (subst mandel_loop.simps) simp
next
  case (Suc k)
  then have lt: "n < maxIter" by simp
  then have i: "incr n = n + 1" using assms(1) by (intro incr_below) simp
  show ?case
  proof (cases "js_gt (js_add (js_mul a a) (js_mul b b)) (Fin 4)")
    case True
    then show ?thesis using lt by (subst mandel_loop.simps) simp
  next
    case False
    let ?a = "js_add (js_sub (js_mul a a) (js_mul b b)) x"
    let ?b = "js_add (js_mul (js_mul (Fin 2) a) b) y"
    have "k = maxIter - (n + 1)" "n + 1 \<le> maxIter" using Suc.hyps(2) lt by simp_all
    from Suc.hyps(1) [OF this] obtain r where
      "mandel_loop x y maxIter ?a ?b (n + 1) = Some r" "n + 1 \<le> r" "r \<le> maxIter"
      by blast
    then show ?thesis
      using lt False by (subst mandel_loop.simps) (simp add: i)
  qed
qed

lemma mandel_loop_induct:
  assumes r: "mandel_loop x y maxIter a b n = Some r"
    and step: "\<And>loop x y maxIter a b n r.
           (\<And>x y maxIter a b n r. loop x y maxIter a b n = Some r \<Longrightarrow> P x y maxIter a b n r) \<Longrightarrow>
           (if n < maxIter
            then if js_gt (js_add (js_mul a a) (js_mul b b)) (Fin 4) then Some n
                 else loop x y maxIter (js_add (js_sub (js_mul a a) (js_mul b b)) x)
                        (js_add (js_mul (js_mul (Fin 2) a) b) y) (incr n)
            else Some n) = Some r \<Longrightarrow>
           P x y maxIter a b n r"
  shows "P x y maxIter a b n r"
proof -
  note R = mandel_loop.raw_induct [where P = P and xa = "(((((x, y), maxIter), a), b), n)" and ya = r,
      unfolded prod.case]
  show ?thesis
  proof (rule R)
    show "mandel_loop x y maxIter a b n = Some r" by (rule r)
  next
    fix loop x y maxIter a b n r
    assume "\<And>y maxIter a b n ba ya. loop y maxIter a b n ba = Some ya \<Longrightarrow> P y maxIter a b n ba ya"
      and "(if n < maxIter
            then if js_gt (js_add (js_mul a a) (js_mul b b)) (Fin 4) then Some n
                 else loop x y maxIter (js_add (js_sub (js_mul a a) (js_mul b b)) x)
                        (js_add (js_mul (js_mul (Fin 2) a) b) y) (incr n)
            else Some n) = Some r"
    then show "P x y maxIter a b n r" by (rule step)
  qed
qed

lemma mandel_loop_ge:
  assumes "mandel_loop x y maxIter a b n = Some r"
  shows "n \<le> 2 ^ 53 \<longrightarrow> n \<le> r"
  using assms
proof (rule mandel_loop_induct)
  fix loop x y maxIter a b n r
  assume IH: "\<And>x y maxIter a b n r. loop x y maxIter a b n = Some r \<Longrightarrow> n \<le> 2 ^ 53 \<longrightarrow> n \<le> r"
    and body: "(if n < maxIter
            then if js_gt (js_add (js_mul a a) (js_mul b b)) (Fin 4) then Some n
                 else loop x y maxIter (js_add (js_sub (js_mul a a) (js_mul b b)) x)
                        (js_add (js_mul (js_mul (Fin 2) a) b) y) (incr n)
            else Some n) = Some r"
  show "n \<le> 2 ^ 53 \<longrightarrow> n \<le> r"
  proof
    assume n: "n \<le> 2 ^ 53"
    show "n \<le> r"
    proof (cases "n < maxIter \<and> \<not> js_gt (js_add (js_mul a a) (js_mul b b)) (Fin 4)")
      case False
      with body show ?thesis by (auto split: if_splits)
    next
      case True
      with body have "loop x y maxIter (js_add (js_sub (js_mul a a) (js_mul b b)) x)
                        (js_add (js_mul (js_mul (Fin 2) a) b) y) (incr n) = Some r"
        by simp
      from IH [OF this] incr_bounds [OF n] show ?thesis by simp
    qed
  qed
qed

lemma mandel_stuck:
  assumes "mandel_loop x y maxIter a b n = Some r"
  shows "\<not> (x = Fin 0 \<and> y = Fin 0 \<and> a = Fin 0 \<and> b = Fin 0 \<and> maxIter = 2 ^ 53 + 2 \<and> n \<le> 2 ^ 53)"
  using assms
proof (rule mandel_loop_induct)
  fix loop x y maxIter a b n r
  assume IH: "\<And>x y maxIter a b n r. loop x y maxIter a b n = Some r \<Longrightarrow>
      \<not> (x = Fin 0 \<and> y = Fin 0 \<and> a = Fin 0 \<and> b = Fin 0 \<and> maxIter = 2 ^ 53 + 2 \<and> n \<le> 2 ^ 53)"
    and body: "(if n < maxIter
            then if js_gt (js_add (js_mul a a) (js_mul b b)) (Fin 4) then Some n
                 else loop x y maxIter (js_add (js_sub (js_mul a a) (js_mul b b)) x)
                        (js_add (js_mul (js_mul (Fin 2) a) b) y) (incr n)
            else Some n) = Some r"
  show "\<not> (x = Fin 0 \<and> y = Fin 0 \<and> a = Fin 0 \<and> b = Fin 0 \<and> maxIter = 2 ^ 53 + 2 \<and> n \<le> 2 ^ 53)"
  proof
    assume s: "x = Fin 0 \<and> y = Fin 0 \<and> a = Fin 0 \<and> b = Fin 0 \<and> maxIter = 2 ^ 53 + 2 \<and> n \<le> 2 ^ 53"
    then have "n < maxIter" by simp
    with body s have "loop x y maxIter (Fin 0) (Fin 0) (incr n) = Some r"
      by (simp add: js_sub_def)
    from IH [OF this] s incr_bounds(2) [of n] show False by simp
  qed
qed

lemma mandel_returns:
  assumes "maxIter \<le> 2 ^ 53"
  shows "\<exists>n. mandel x y maxIter = Some n \<and> n \<le> maxIter"
  using mandel_loop_returns [OF assms, of 0 x y x y] by (auto simp: mandel_def)

text \<open>
  Claim C6, as stated: \<^verbatim>\<open>mandel\<close> terminates for every natural \<open>maxIter\<close>. It
  fails beyond \<open>2\<^sup>5\<^sup>3\<close>: the counter is a binary64 number, \<open>2\<^sup>5\<^sup>3 + 1\<close> rounds to
  \<open>2\<^sup>5\<^sup>3\<close>, so \<^verbatim>\<open>n++\<close> leaves \<open>n\<close> at \<open>2\<^sup>5\<^sup>3\<close>, and at the origin, which never
  escapes, \<^verbatim>\<open>mandel(0, 0, 2**53 + 2)\<close> does not return.
\<close>

theorem mandel_diverges_counterexample:
  "mandel (Fin 0) (Fin 0) (2 ^ 53 + 2) = None"
proof (cases "mandel (Fin 0) (Fin 0) (2 ^ 53 + 2)")
  case None
  then show ?thesis .
next
  case (Some r)
  then show ?thesis
    using mandel_stuck [of "Fin 0" "Fin 0" "2 ^ 53 + 2" "Fin 0" "Fin 0" 0 r]
    by (simp add: mandel_def)
qed

text \<open>
  Claim C6, amended: for every \<open>maxIter\<close> up to \<open>2\<^sup>5\<^sup>3\<close> and all numbers \<open>x\<close>, \<open>y\<close>,
  the non-finite ones included, \<^verbatim>\<open>mandel\<close> terminates and returns an integer \<open>n\<close>
  with \<open>0 \<le> n \<le> maxIter\<close>.
\<close>

theorem mandel_terminates_bounded:
  assumes "maxIter \<le> 2 ^ 53"
  shows "\<exists>n. mandel x y maxIter = Some n \<and> 0 \<le> n \<and> n \<le> maxIter"
  using mandel_loop_returns [OF assms, of 0 x y x y] by (auto simp: mandel_def)

theorem mandel_terminates_bounded_witness:
  "(500::nat) \<le> 2 ^ 53 \<and> (\<exists>n. mandel (Fin 0) (Fin 0) 500 = Some n \<and> 0 \<le> n \<and> n \<le> 500)"
  using mandel_terminates_bounded [of 500 "Fin 0" "Fin 0"] by simp

text \<open>
  Claim C10, as stated: for reals \<open>x\<close>, \<open>y\<close> with \<open>x\<^sup>2 + y\<^sup>2 > 4\<close> and \<open>maxIter > 0\<close>,
  \<^verbatim>\<open>mandel(x, y, maxIter)\<close> is 0. It fails at \<open>x = 2\<close>, \<open>y = 2\<^sup>-\<^sup>3\<^sup>0\<close>: the sum
  \<open>4 + 2\<^sup>-\<^sup>6\<^sup>0\<close> rounds to 4, the test \<^verbatim>\<open>a2 + b2 > 4\<close> fails, and the next iteration
  returns 1.
\<close>

theorem mandel_outside_disk_counterexample:
  "(2::real)\<^sup>2 + (1 / 2 ^ 30)\<^sup>2 > 4 \<and> mandel (Fin 2) (Fin (1 / 2 ^ 30)) 5 = Some 1"
proof -
  have i0: "incr 0 = 1" using incr_below [of 0] by simp
  have second: "mandel_loop (Fin 2) (Fin (1 / 2 ^ 30)) 5 (Fin 6) (Fin (5 / 2 ^ 30)) 1 = Some 1"
    by (subst mandel_loop.simps) (simp add: rd_compute)
  have first: "mandel_loop (Fin 2) (Fin (1 / 2 ^ 30)) 5 (Fin 2) (Fin (1 / 2 ^ 30)) 0 =
        mandel_loop (Fin 2) (Fin (1 / 2 ^ 30)) 5 (Fin 6) (Fin (5 / 2 ^ 30)) 1"
    by (subst mandel_loop.simps) (simp add: rd_compute js_sub_def i0)
  have "mandel (Fin 2) (Fin (1 / 2 ^ 30)) 5 = Some 1"
    unfolding mandel_def first second ..
  then show ?thesis by simp
qed

text \<open>
  The first test of the loop in terms of the reals \<open>x\<close> and \<open>y\<close>: the two squares
  and their sum are rounded, each by at most half a spacing, and the double next
  above 4 is \<open>4 + 2\<^sup>-\<^sup>5\<^sup>0\<close>.
\<close>

lemma at_least_rd:
  assumes "rne c = c" "0 \<le> c" "c \<le> v"
  shows "at_least c (rd v)"
proof -
  have r: "c \<le> rne v" using rne_mono [OF assms(3)] assms(1) by simp
  show ?thesis
  proof (cases "2 ^ 1024 \<le> \<bar>rne v\<bar>")
    case True
    then have "rne v \<noteq> 0" by auto
    then have "v \<noteq> 0" by auto
    then have "0 < v" using assms(2,3) by simp
    then show ?thesis using True by (simp add: rd_def at_least_def)
  next
    case False
    then show ?thesis using r by (simp add: rd_def at_least_def)
  qed
qed

lemma at_least_add:
  assumes "at_least c1 v1" "at_least c2 v2" "rne c = c" "0 \<le> c" "c \<le> c1 + c2"
  shows "at_least c (js_add v1 v2)"
proof (cases "v1 = PInf \<or> v2 = PInf")
  case True
  then show ?thesis
    using assms(1,2) by (cases v1; cases v2) (auto simp add: at_least_def)
next
  case False
  then obtain r1 r2 where v: "v1 = Fin r1" "c1 \<le> r1" "v2 = Fin r2" "c2 \<le> r2"
    using assms(1,2) by (auto simp add: at_least_def)
  have "c \<le> r1 + r2" using assms(5) v(2,4) by linarith
  from at_least_rd [OF assms(3,4) this] show ?thesis by (simp add: v)
qed

lemma at_least_gt: "at_least c v \<Longrightarrow> d < c \<Longrightarrow> js_gt v (Fin d)"
  by (auto simp add: at_least_def)

lemma next_after_4: "rne (4 + 1 / 2 ^ 50) = 4 + 1 / 2 ^ 50"
proof -
  have "rne (of_int (2 ^ 52 + 1) * 2 powi (- 50)) = of_int (2 ^ 52 + 1) * 2 powi (- 50)"
    by (rule rne_exact) simp_all
  moreover have "of_int (2 ^ 52 + 1) * 2 powi (- 50) = (4 + 1 / 2 ^ 50 :: real)"
    by (simp add: power_int_minus inverse_eq_divide)
  ultimately show ?thesis by simp
qed

lemma escape_test_sufficient:
  assumes "4 + 1 / 2 ^ 48 \<le> x\<^sup>2 + y\<^sup>2"
  shows "js_gt (js_add (js_mul (Fin x) (Fin x)) (js_mul (Fin y) (Fin y))) (Fin 4)"
proof -
  let ?t = "4 + 1 / 2 ^ 50 :: real"
  define p q where "p = x * x" and "q = y * y"
  have pq: "0 \<le> p" "0 \<le> q" "4 + 1 / 2 ^ 48 \<le> p + q"
    using assms by (simp_all add: p_def q_def power2_eq_square)
  have t: "rne ?t = ?t" "0 \<le> ?t" "4 < ?t" using next_after_4 by simp_all
  have z: "rne 0 = 0" "(0::real) \<le> 0" by simp_all
  have P0: "at_least 0 (rd p)" using z pq(1) by (rule at_least_rd)
  have Q0: "at_least 0 (rd q)" using z pq(2) by (rule at_least_rd)
  have "at_least ?t (js_add (rd p) (rd q))"
  proof (cases "?t \<le> p \<or> ?t \<le> q")
    case True
    then show ?thesis
    proof
      assume "?t \<le> p"
      then have "at_least ?t (rd p)" using t(1,2) by (intro at_least_rd)
      then show ?thesis using Q0 t(1,2) by (rule at_least_add) simp
    next
      assume "?t \<le> q"
      then have "at_least ?t (rd q)" using t(1,2) by (intro at_least_rd)
      with P0 show ?thesis using t(1,2) by (rule at_least_add) simp
    qed
  next
    case False
    then have small: "p < 8" "q < 8" by simp_all
    have ep: "\<bar>rne p - p\<bar> \<le> 1 / 2 ^ 51" using pq(1) small(1) by (rule rne_error_below_8)
    have eq: "\<bar>rne q - q\<bar> \<le> 1 / 2 ^ 51" using pq(2) small(2) by (rule rne_error_below_8)
    have "\<bar>p\<bar> \<le> 2 powi 1023" "\<bar>q\<bar> \<le> 2 powi 1023"
    proof -
      have "(8::real) \<le> 2 powi 1023" by simp
      then show "\<bar>p\<bar> \<le> 2 powi 1023" "\<bar>q\<bar> \<le> 2 powi 1023"
        using pq(1,2) small by linarith+
    qed
    then have rp: "rd p = Fin (rne p)" and rq: "rd q = Fin (rne q)"
      by (simp_all add: rd_Fin)
    have "p - 1 / 2 ^ 51 \<le> rne p" "q - 1 / 2 ^ 51 \<le> rne q"
      using ep eq by linarith+
    then have "4 + 1 / 2 ^ 48 - 2 / 2 ^ 51 \<le> rne p + rne q"
      using pq(3) by linarith
    moreover have "?t \<le> 4 + 1 / 2 ^ 48 - 2 / 2 ^ 51" by simp
    ultimately have "?t \<le> rne p + rne q" by linarith
    from at_least_rd [OF t(1,2) this] show ?thesis by (simp add: rp rq)
  qed
  then have "js_gt (js_add (rd p) (rd q)) (Fin 4)" using t(3) by (rule at_least_gt)
  then show ?thesis by (simp add: p_def q_def)
qed

text \<open>
  Claim C10, amended: for \<open>maxIter > 0\<close>, \<^verbatim>\<open>mandel(x, y, maxIter)\<close> is 0 exactly when
  the sum that the code computes, \<open>x * x\<close> and \<open>y * y\<close> each rounded and their sum
  rounded, exceeds 4; and it does for all reals \<open>x\<close>, \<open>y\<close> with
  \<open>x\<^sup>2 + y\<^sup>2 \<ge> 4 + 2\<^sup>-\<^sup>4\<^sup>8\<close>.
\<close>

theorem mandel_outside_disk:
  assumes "0 < maxIter"
  shows "((mandel (Fin x) (Fin y) maxIter = Some 0) =
          js_gt (js_add (js_mul (Fin x) (Fin x)) (js_mul (Fin y) (Fin y))) (Fin 4)) \<and>
         (4 + 1 / 2 ^ 48 \<le> x\<^sup>2 + y\<^sup>2 \<longrightarrow> mandel (Fin x) (Fin y) maxIter = Some 0)"
proof -
  have iff: "(mandel (Fin x) (Fin y) maxIter = Some 0) =
          js_gt (js_add (js_mul (Fin x) (Fin x)) (js_mul (Fin y) (Fin y))) (Fin 4)"
  proof (cases "js_gt (js_add (js_mul (Fin x) (Fin x)) (js_mul (Fin y) (Fin y))) (Fin 4)")
    case True
    then show ?thesis
      using assms unfolding mandel_def by (subst mandel_loop.simps) simp
  next
    case False
    have i0: "incr 0 = 1" using incr_below [of 0] by simp
    have "mandel (Fin x) (Fin y) maxIter \<noteq> Some 0"
    proof
      assume "mandel (Fin x) (Fin y) maxIter = Some 0"
      then have "mandel_loop (Fin x) (Fin y) maxIter
                   (js_add (js_sub (js_mul (Fin x) (Fin x)) (js_mul (Fin y) (Fin y))) (Fin x))
                   (js_add (js_mul (js_mul (Fin 2) (Fin x)) (Fin y)) (Fin y)) 1 = Some 0"
        using assms False unfolding mandel_def
        by (subst (asm) mandel_loop.simps) (simp add: i0)
      from mandel_loop_ge [OF this] show False by simp
    qed
    with False show ?thesis by simp
  qed
  moreover have "4 + 1 / 2 ^ 48 \<le> x\<^sup>2 + y\<^sup>2 \<longrightarrow> mandel (Fin x) (Fin y) maxIter = Some 0"
    unfolding iff using escape_test_sufficient [of x y] by blast
  ultimately show ?thesis ..
qed

theorem mandel_outside_disk_witness:
  "(0::nat) < 5 \<and> 4 + 1 / 2 ^ 48 \<le> (3::real)\<^sup>2 + 0\<^sup>2 \<and> mandel (Fin 3) (Fin 0) 5 = Some 0"
proof -
  have "4 + 1 / 2 ^ 48 \<le> (3::real)\<^sup>2 + 0\<^sup>2" by simp
  then show ?thesis using mandel_outside_disk [of 5 3 0] by simp
qed

section \<open>Properties of the histogram normalizer\<close>

lemma normalize_RangeError: "2 ^ 32 \<le> maxIter \<Longrightarrow> normalize ns maxIter = Inl RangeError"
  by (simp add: normalize_def new_Array_fill_def)

lemma normalize_Inr:
  assumes "maxIter < 2 ^ 32"
  shows "normalize ns maxIter =
         Inr (map (\<lambda>n. if n = maxIter then num maxIter
                        else js_ceil (js_div (arr_get (cumul_built ns maxIter) n)
                               (js_div (arr_get (cumul_built ns maxIter)
                                          (length (cumul_built ns maxIter) - 1))
                                  (num maxIter)))) ns)"
  using assms by (simp add: normalize_def new_Array_fill_def Let_def cumul_built_def)

lemma finite_js_val: "finite_js v \<Longrightarrow> v = Fin (val v)"
  by (cases v) simp_all

lemma rne_2_53_1: "rne (2 ^ 53 + 1) = 2 ^ 53"
  by (simp add: rne_def ulp_exp_def expo_def round_even_def bitlen_numeral bitlen_1)

lemma is_sum_0: "is_sum (Fin 0) k"
  by (simp add: is_sum_def)

lemma is_sum_mono: "is_sum v k \<Longrightarrow> k \<le> k' \<Longrightarrow> is_sum v k'"
proof -
  assume a: "is_sum v k" "k \<le> k'"
  then have "real k * 2 ^ 53 \<le> real k' * 2 ^ 53" by simp
  with a(1) show ?thesis unfolding is_sum_def by linarith
qed

text \<open>Adding two bounded sums: the rounded sum is finite, bounded, and at least each operand.\<close>

lemma is_sum_add:
  assumes a: "is_sum a k" and b: "is_sum b l" and kl: "k + l < 2 ^ 53"
  shows "is_sum (js_add a b) (k + l)"
    and "val a \<le> val (js_add a b)" and "val b \<le> val (js_add a b)"
proof -
  let ?s = "val a + val b"
  have A: "a = Fin (val a)" and B: "b = Fin (val b)"
    using a b by (simp_all add: is_sum_def finite_js_val)
  have s0: "0 \<le> ?s" using a b by (simp add: is_sum_def)
  have s1: "?s \<le> real (k + l) * 2 ^ 53"
    using a b by (simp add: is_sum_def algebra_simps)
  have e: "real (k + l) * 2 ^ 53 = of_int (int (k + l)) * 2 powi 53" by simp
  have "\<bar>int (k + l)\<bar> < 2 ^ 53" using kl by simp
  then have ex: "rne (real (k + l) * 2 ^ 53) = real (k + l) * 2 ^ 53"
    unfolding e by (rule rne_exact) simp
  have "real (k + l) * 2 ^ 53 \<le> 2 ^ 53 * 2 ^ 53"
    using kl by (simp add: mult_right_mono)
  also have "\<dots> \<le> (2::real) powi 1023" by simp
  finally have "\<bar>?s\<bar> \<le> 2 powi 1023" using s0 s1 by simp
  then have r: "js_add a b = Fin (rne ?s)"
    by (subst A, subst B) (simp add: rd_Fin)
  have up: "rne ?s \<le> real (k + l) * 2 ^ 53"
    using rne_mono [OF s1] ex by simp
  have ga: "val a \<le> rne ?s"
    using rne_mono [of "val a" ?s] a b by (simp add: is_sum_def)
  have gb: "val b \<le> rne ?s"
    using rne_mono [of "val b" ?s] a b by (simp add: is_sum_def)
  have "0 \<le> rne ?s" using s0 by (rule rne_nonneg)
  then show "is_sum (js_add a b) (k + l)"
    using up by (simp add: r is_sum_def rne_idem)
  show "val a \<le> val (js_add a b)" "val b \<le> val (js_add a b)"
    using ga gb by (simp_all add: r)
qed


lemma is_sum_incr:
  assumes "is_sum v 1"
  shows "is_sum (js_add v (Fin 1)) 1"
    and "val v \<le> val (js_add v (Fin 1))" and "1 \<le> val (js_add v (Fin 1))"
proof -
  let ?s = "val v + 1"
  have V: "v = Fin (val v)" using assms by (simp add: is_sum_def finite_js_val)
  have s0: "0 \<le> val v" and s1: "?s \<le> 2 ^ 53 + 1" using assms by (simp_all add: is_sum_def)
  have "(2::real) ^ 53 + 1 \<le> 2 powi 1023" by simp
  then have "\<bar>?s\<bar> \<le> 2 powi 1023" using s0 s1 by linarith
  then have r: "js_add v (Fin 1) = Fin (rne ?s)"
    by (subst V) (simp add: rd_Fin)
  have up: "rne ?s \<le> 2 ^ 53" using rne_mono [OF s1] rne_2_53_1 by simp
  have g1: "1 \<le> rne ?s" using rne_mono [of 1 ?s] s0 rne_of_int [of 1] by simp
  have gv: "val v \<le> rne ?s" using rne_mono [of "val v" ?s] assms by (simp add: is_sum_def)
  show "is_sum (js_add v (Fin 1)) 1"
    using up g1 by (simp add: r is_sum_def rne_idem)
  show "val v \<le> val (js_add v (Fin 1))" "1 \<le> val (js_add v (Fin 1))"
    using gv g1 by (simp_all add: r)
qed

lemma hist_fold_inv:
  assumes "\<forall>k<length h. is_sum (h ! k) 1" "\<forall>n\<in>set xs. n < length h"
  shows "length (fold (\<lambda>n hist. arr_set hist n (js_add (arr_get hist n) (Fin 1))) xs h) = length h \<and>
         (\<forall>k<length h.
            is_sum (fold (\<lambda>n hist. arr_set hist n (js_add (arr_get hist n) (Fin 1))) xs h ! k) 1 \<and>
            val (h ! k) \<le> val (fold (\<lambda>n hist. arr_set hist n (js_add (arr_get hist n) (Fin 1))) xs h ! k)) \<and>
         (\<forall>n\<in>set xs.
            1 \<le> val (fold (\<lambda>n hist. arr_set hist n (js_add (arr_get hist n) (Fin 1))) xs h ! n))"
  using assms
proof (induction xs arbitrary: h)
  case Nil
  then show ?case by simp
next
  case (Cons n xs)
  let ?step = "\<lambda>n hist. arr_set hist n (js_add (arr_get hist n) (Fin 1))"
  let ?h1 = "h[n := js_add (h ! n) (Fin 1)]"
  from Cons.prems have n: "n < length h" by simp
  have h1: "?step n h = ?h1" using n by (simp add: arr_set_def arr_get_def)
  note inc = is_sum_incr [of "h ! n"]
  have c1: "\<forall>k<length ?h1. is_sum (?h1 ! k) 1"
    using Cons.prems(1) n inc(1) by (simp add: nth_list_update)
  have le1: "\<forall>k<length h. val (h ! k) \<le> val (?h1 ! k)"
    using Cons.prems(1) n inc(2) by (simp add: nth_list_update)
  have one: "1 \<le> val (?h1 ! n)"
    using Cons.prems(1) n inc(3) by simp
  have xs: "\<forall>m\<in>set xs. m < length ?h1" using Cons.prems(2) by simp
  note IH = Cons.IH [OF c1 xs]
  have IH1: "length (fold ?step xs ?h1) = length h" using IH by simp
  have IH2: "\<And>k. k < length h \<Longrightarrow> is_sum (fold ?step xs ?h1 ! k) 1" using IH by simp
  have IH3: "\<And>k. k < length h \<Longrightarrow> val (?h1 ! k) \<le> val (fold ?step xs ?h1 ! k)"
    using IH by simp
  have IH4: "\<And>m. m \<in> set xs \<Longrightarrow> 1 \<le> val (fold ?step xs ?h1 ! m)" using IH by simp
  have f: "fold ?step (n # xs) h = fold ?step xs ?h1" by (simp add: h1)
  show ?case
    unfolding f
  proof (intro conjI allI impI ballI)
    show "length (fold ?step xs ?h1) = length h" by (rule IH1)
  next
    fix k assume k: "k < length h"
    then show "is_sum (fold ?step xs ?h1 ! k) 1" by (rule IH2)
    have "val (h ! k) \<le> val (?h1 ! k)" using le1 k by blast
    also have "\<dots> \<le> val (fold ?step xs ?h1 ! k)" using k by (rule IH3)
    finally show "val (h ! k) \<le> val (fold ?step xs ?h1 ! k)" .
  next
    fix m assume "m \<in> set (n # xs)"
    then consider "m = n" | "m \<in> set xs" by auto
    then show "1 \<le> val (fold ?step xs ?h1 ! m)"
    proof cases
      case 1
      have "1 \<le> val (?h1 ! n)" by (rule one)
      also have "\<dots> \<le> val (fold ?step xs ?h1 ! n)" using n by (rule IH3)
      finally show ?thesis unfolding 1 .
    next
      case 2
      then show ?thesis by (rule IH4)
    qed
  qed
qed

lemma hist_fill_inv:
  "length (hist_fill ns maxIter (replicate maxIter (Fin 0))) = maxIter \<and>
   (\<forall>k<maxIter. is_sum (hist_fill ns maxIter (replicate maxIter (Fin 0)) ! k) 1) \<and>
   (\<forall>n\<in>set ns. n < maxIter \<longrightarrow>
      1 \<le> val (hist_fill ns maxIter (replicate maxIter (Fin 0)) ! n))"
proof -
  have a: "\<forall>k<length (replicate maxIter (Fin 0)). is_sum (replicate maxIter (Fin 0) ! k) 1"
    by (simp add: is_sum_0)
  have b: "\<forall>n\<in>set (filter (\<lambda>n. n < maxIter) ns). n < length (replicate maxIter (Fin 0))"
    by simp
  from hist_fold_inv [OF a b] show ?thesis
    unfolding hist_fill_def by simp
qed


lemma cumul_step_inv:
  assumes H: "length hist = maxIter" "\<forall>k<maxIter. is_sum (hist ! k) 1"
    and m: "maxIter < 2 ^ 32" and i: "0 < i" "i < maxIter"
    and inv: "cumul_inv hist maxIter i cumul"
  shows "cumul_inv hist maxIter (i + 1)
           (arr_set cumul i (js_add (arr_get cumul (i - 1)) (arr_get hist i)))"
proof -
  let ?v = "js_add (cumul ! (i - 1)) (hist ! i)"
  have len: "length cumul = maxIter" using inv by (simp add: cumul_inv_def)
  have prev: "is_sum (cumul ! (i - 1)) i"
  proof -
    have "i - 1 < i" using i(1) by simp
    then have "is_sum (cumul ! (i - 1)) (i - 1 + 1)"
      using inv unfolding cumul_inv_def by blast
    then show ?thesis using i(1) by simp
  qed
  have hi: "is_sum (hist ! i) 1" using H(2) i(2) by simp
  have small: "i + 1 < 2 ^ 53"
  proof -
    have "i + 1 \<le> maxIter" using i(2) by simp
    also have "maxIter < 2 ^ 32" by fact
    also have "(2::nat) ^ 32 < 2 ^ 53" by simp
    finally show ?thesis .
  qed
  note add = is_sum_add [OF prev hi small]
  have set: "arr_set cumul i (js_add (arr_get cumul (i - 1)) (arr_get hist i)) = cumul[i := ?v]"
  proof -
    have "i - 1 < length cumul" "i < length cumul" "i < length hist"
      using len H(1) i by simp_all
    then show ?thesis by (simp add: arr_set_def arr_get_def)
  qed
  have old: "\<And>k. k < i \<Longrightarrow> cumul[i := ?v] ! k = cumul ! k" by simp
  have new: "cumul[i := ?v] ! i = ?v" using len i(2) by simp
  have chain: "val (cumul ! k') \<le> val ?v" if "k' < i" for k'
  proof -
    have "k' \<le> i - 1" "i - 1 < i" using that i(1) by simp_all
    then have "val (cumul ! k') \<le> val (cumul ! (i - 1))"
      using inv by (simp add: cumul_inv_def)
    also have "\<dots> \<le> val ?v" by (rule add(2))
    finally show ?thesis .
  qed
  show ?thesis
    unfolding set cumul_inv_def
  proof (intro conjI allI impI)
    show "length (cumul[i := ?v]) = maxIter" using len by simp
  next
    fix k assume k: "k < i + 1"
    show "is_sum (cumul[i := ?v] ! k) (k + 1)"
    proof (cases "k = i")
      case True
      then show ?thesis using add(1) new by simp
    next
      case False
      with k have "k < i" by simp
      then show ?thesis using inv by (simp add: cumul_inv_def)
    qed
    show "val (hist ! k) \<le> val (cumul[i := ?v] ! k)"
    proof (cases "k = i")
      case True
      then show ?thesis using add(3) new by simp
    next
      case False
      with k have "k < i" by simp
      then show ?thesis using inv by (simp add: cumul_inv_def)
    qed
    fix k' assume k': "k' \<le> k"
    show "val (cumul[i := ?v] ! k') \<le> val (cumul[i := ?v] ! k)"
    proof (cases "k = i")
      case True
      show ?thesis
      proof (cases "k' = i")
        case True
        then show ?thesis using \<open>k = i\<close> by simp
      next
        case False
        with k' \<open>k = i\<close> have "k' < i" by simp
        then show ?thesis using chain \<open>k = i\<close> new by simp
      qed
    next
      case False
      with k have "k < i" by simp
      moreover from this k' have "k' < i" by simp
      ultimately show ?thesis using inv k' by (simp add: cumul_inv_def)
    qed
  qed
qed

lemma cumul_loop_inv:
  assumes H: "length hist = maxIter" "\<forall>k<maxIter. is_sum (hist ! k) 1"
    and m: "maxIter < 2 ^ 32"
  shows "0 < i \<Longrightarrow> i \<le> maxIter \<Longrightarrow> cumul_inv hist maxIter i cumul \<Longrightarrow>
         cumul_inv hist maxIter maxIter (cumul_loop hist maxIter i cumul)"
proof (induction "maxIter - i" arbitrary: i cumul)
  case 0
  then show ?case by (subst cumul_loop.simps) simp
next
  case (Suc d)
  then have lt: "i < maxIter" by simp
  let ?c = "arr_set cumul i (js_add (arr_get cumul (i - 1)) (arr_get hist i))"
  have inv': "cumul_inv hist maxIter (i + 1) ?c"
    using H m Suc.prems(1) lt Suc.prems(3) by (rule cumul_step_inv)
  have "cumul_inv hist maxIter maxIter (cumul_loop hist maxIter (i + 1) ?c)"
    using Suc.hyps(2) lt inv' by (intro Suc.hyps(1)) simp_all
  then show ?case
    using lt by (subst cumul_loop.simps) simp
qed

lemma cumul_fill_inv:
  assumes H: "length hist = maxIter" "\<forall>k<maxIter. is_sum (hist ! k) 1"
    and m: "maxIter < 2 ^ 32" "0 < maxIter"
  shows "cumul_inv hist maxIter maxIter (cumul_fill hist maxIter (replicate maxIter (Fin 0)))"
proof -
  let ?c0 = "(replicate maxIter (Fin 0))[0 := hist ! 0]"
  have c0: "arr_set (replicate maxIter (Fin 0)) 0 (arr_get hist 0) = ?c0"
    using H(1) m(2) by (simp add: arr_set_def arr_get_def)
  have "cumul_inv hist maxIter 1 ?c0"
    using H(2) m(2) by (simp add: cumul_inv_def)
  then show ?thesis
    unfolding cumul_fill_def c0 using m by (intro cumul_loop_inv [OF H m(1)]) simp_all
qed


lemma cumul_built_inv:
  assumes "maxIter < 2 ^ 32" "0 < maxIter"
  shows "cumul_inv (hist_fill ns maxIter (replicate maxIter (Fin 0))) maxIter maxIter
           (cumul_built ns maxIter)"
  unfolding cumul_built_def using hist_fill_inv [of ns maxIter] assms
  by (intro cumul_fill_inv) simp_all

lemma normalize_escaping:
  assumes m: "maxIter < 2 ^ 32" and e: "e \<in> set ns" "e < maxIter"
  shows "\<exists>out D. normalize ns maxIter = Inr out \<and> length out = length ns \<and> 0 < D \<and>
           (\<forall>i<length ns. ns ! i < maxIter \<longrightarrow>
              out ! i = Fin (of_int \<lceil>rne (val (cumul_built ns maxIter ! (ns ! i)) / D)\<rceil>))"
proof -
  let ?H = "hist_fill ns maxIter (replicate maxIter (Fin 0))"
  let ?C = "cumul_built ns maxIter"
  define T where "T = val (?C ! (maxIter - 1))"
  define D where "D = rne (T / real maxIter)"
  have pos: "0 < maxIter" using e(2) by simp
  note inv = cumul_built_inv [OF m pos, of ns, unfolded cumul_inv_def]
  have len: "length ?C = maxIter" using inv by simp
  have sum: "\<And>k. k < maxIter \<Longrightarrow> is_sum (?C ! k) (k + 1)" using inv by simp
  have fin: "\<And>k. k < maxIter \<Longrightarrow> ?C ! k = Fin (val (?C ! k))"
    using sum by (simp add: is_sum_def finite_js_val)
  have bound: "0 \<le> val (?C ! k) \<and> val (?C ! k) \<le> real maxIter * 2 ^ 53" if "k < maxIter" for k
  proof -
    have "real (k + 1) * 2 ^ 53 \<le> real maxIter * 2 ^ 53"
      using that by (intro mult_right_mono) simp_all
    then show ?thesis using sum [OF that] unfolding is_sum_def by linarith
  qed
  have "1 \<le> val (?H ! e)" using hist_fill_inv [of ns maxIter] e by simp
  also have "\<dots> \<le> val (?C ! e)" using inv e(2) by simp
  also have "\<dots> \<le> val (?C ! (maxIter - 1))"
  proof -
    have "maxIter - 1 < maxIter" "e \<le> maxIter - 1" using e(2) by simp_all
    then show ?thesis using inv by blast
  qed
  finally have T1: "1 \<le> T" by (simp add: T_def)
  have T2: "T \<le> real maxIter * 2 ^ 53" using bound [of "maxIter - 1"] pos by (simp add: T_def)
  have M: "real maxIter \<le> 2 ^ 32"
  proof -
    have "maxIter \<le> 2 ^ 32" using m by simp
    then have "real maxIter \<le> real (2 ^ 32)" by (simp only: of_nat_le_iff)
    then show ?thesis by simp
  qed
  have q_lo: "2 powi (- 32) \<le> T / real maxIter"
  proof -
    have "1 / 2 ^ 32 \<le> 1 / real maxIter" using pos M by (simp add: frac_le)
    also have "\<dots> \<le> T / real maxIter" using T1 pos by (simp add: divide_right_mono)
    finally show ?thesis by (simp add: power_int_minus inverse_eq_divide)
  qed
  have q_hi: "T / real maxIter \<le> 2 ^ 53"
    using T2 pos by (simp add: pos_divide_le_eq mult.commute)
  have "\<bar>T / real maxIter\<bar> \<le> 2 powi 1023"
  proof -
    have "0 \<le> T / real maxIter" using T1 pos by simp
    moreover have "(2::real) ^ 53 \<le> 2 powi 1023" by simp
    ultimately show ?thesis using q_hi by linarith
  qed
  then have dv: "rd (T / real maxIter) = Fin D" by (simp add: rd_Fin D_def)
  have D_lo: "2 powi (- 32) \<le> D"
    using rne_mono [OF q_lo] rne_pow2 [of "- 32"] by (simp add: D_def)
  have D_pos: "0 < D"
  proof -
    have "0 < (2::real) powi (- 32)" by simp
    then show ?thesis using D_lo by linarith
  qed
  have last: "arr_get ?C (length ?C - 1) = Fin T"
    using fin [of "maxIter - 1"] pos by (simp add: arr_get_def len T_def)
  have dv': "js_div (arr_get ?C (length ?C - 1)) (num maxIter) = Fin D"
    unfolding last using pos dv by (simp add: num_def)
  have entry: "js_ceil (js_div (arr_get ?C n) (Fin D)) = Fin (of_int \<lceil>rne (val (?C ! n) / D)\<rceil>)"
    if n: "n < maxIter" for n
  proof -
    let ?c = "val (?C ! n)"
    have c: "0 \<le> ?c" "?c \<le> real maxIter * 2 ^ 53" using bound [OF n] by simp_all
    have "?c / D \<le> ?c / 2 powi (- 32)"
      using c(1) D_lo by (intro divide_left_mono) simp_all
    also have "\<dots> = ?c * 2 ^ 32" by (simp add: power_int_minus inverse_eq_divide)
    also have "\<dots> \<le> (2 ^ 32 * 2 ^ 53) * 2 ^ 32"
    proof -
      have "?c \<le> 2 ^ 32 * 2 ^ 53" using c(2) M by (smt (verit) mult_right_mono zero_le_power)
      then show ?thesis by (intro mult_right_mono) simp_all
    qed
    also have "\<dots> \<le> (2::real) powi 1023" by simp
    finally have "\<bar>?c / D\<bar> \<le> 2 powi 1023" using c(1) D_pos by simp
    then have "rd (?c / D) = Fin (rne (?c / D))" by (rule rd_Fin)
    moreover have "arr_get ?C n = Fin ?c" using fin [OF n] n by (simp add: arr_get_def len)
    ultimately show ?thesis using D_pos by simp
  qed
  let ?out = "map (\<lambda>n. if n = maxIter then num maxIter
                        else js_ceil (js_div (arr_get ?C n) (Fin D))) ns"
  have "normalize ns maxIter = Inr ?out"
    unfolding normalize_Inr [OF m] dv' ..
  moreover have "length ?out = length ns" by simp
  moreover have "\<forall>i<length ns. ns ! i < maxIter \<longrightarrow>
              ?out ! i = Fin (of_int \<lceil>rne (val (?C ! (ns ! i)) / D)\<rceil>)"
    using entry by simp
  ultimately show ?thesis using D_pos by blast
qed

lemma cumul_built_mono:
  assumes "maxIter < 2 ^ 32" "a \<le> b" "b < maxIter"
  shows "val (cumul_built ns maxIter ! a) \<le> val (cumul_built ns maxIter ! b)"
proof -
  have "0 < maxIter" using assms(3) by simp
  from cumul_built_inv [OF assms(1) this, of ns, unfolded cumul_inv_def] assms(2,3)
  show ?thesis by blast
qed


text \<open>
  Claim C1, as stated, asks for two ordered outputs at every \<open>maxIter\<close>. At
  \<open>maxIter = 2\<^sup>3\<^sup>2\<close> the count 0 escapes, and the call throws: there is no output.
\<close>

theorem normalize_monotonic_counterexample:
  "[0::nat] ! 0 \<le> [0] ! 0 \<and> [0::nat] ! 0 < 2 ^ 32 \<and> normalize [0] (2 ^ 32) = Inl RangeError"
  by (simp add: normalize_RangeError)

text \<open>
  Claim C1, amended: \<^verbatim>\<open>normalize\<close> is monotonic on escaping counts when \<open>maxIter\<close> is
  an array length. For \<open>maxIter < 2\<^sup>3\<^sup>2\<close> and two entries of \<open>ns\<close>, at positions \<open>i\<close>
  and \<open>j\<close>, with values \<open>ns ! i \<le> ns ! j < maxIter\<close>, the call returns, the two
  outputs are finite numbers and the one at \<open>i\<close> is at most the one at \<open>j\<close>. The
  sums, the two divisions and \<^verbatim>\<open>Math.ceil\<close> are those of the code, each rounded.
\<close>

theorem normalize_monotonic:
  assumes "maxIter < 2 ^ 32" "i < length ns" "j < length ns" "ns ! i \<le> ns ! j" "ns ! j < maxIter"
  shows "\<exists>out u v. normalize ns maxIter = Inr out \<and> out ! i = Fin u \<and> out ! j = Fin v \<and> u \<le> v"
proof -
  have mem: "ns ! j \<in> set ns" using assms(3) by simp
  have i_lt: "ns ! i < maxIter" using assms(4,5) by simp
  from normalize_escaping [OF assms(1) mem assms(5)] obtain out D where
    out: "normalize ns maxIter = Inr out" and D: "0 < D" and
    nth: "\<And>k. k < length ns \<Longrightarrow> ns ! k < maxIter \<Longrightarrow>
            out ! k = Fin (of_int \<lceil>rne (val (cumul_built ns maxIter ! (ns ! k)) / D)\<rceil>)"
    by blast
  let ?ci = "val (cumul_built ns maxIter ! (ns ! i))" and ?cj = "val (cumul_built ns maxIter ! (ns ! j))"
  have "?ci \<le> ?cj" using assms(1,4,5) by (rule cumul_built_mono)
  then have "?ci / D \<le> ?cj / D" using D by (simp add: divide_right_mono)
  then have "rne (?ci / D) \<le> rne (?cj / D)" by (rule rne_mono)
  then have "(of_int \<lceil>rne (?ci / D)\<rceil> :: real) \<le> of_int \<lceil>rne (?cj / D)\<rceil>"
    by (simp add: ceiling_mono)
  with out nth [OF assms(2) i_lt] nth [OF assms(3) assms(5)] show ?thesis by blast
qed


theorem normalize_monotonic_witness:
  "(3::nat) < 2 ^ 32 \<and> (0::nat) < length [0, 1, 1, 3, 5, 2::nat] \<and>
   (1::nat) < length [0, 1, 1, 3, 5, 2::nat] \<and>
   [0, 1, 1, 3, 5, 2::nat] ! 0 \<le> [0, 1, 1, 3, 5, 2] ! 1 \<and> [0, 1, 1, 3, 5, 2::nat] ! 1 < 3 \<and>
   (\<exists>out u v. normalize [0, 1, 1, 3, 5, 2] 3 = Inr out \<and>
          out ! 0 = Fin u \<and> out ! 1 = Fin v \<and> u \<le> v)"
  using normalize_monotonic [of 3 0 "[0, 1, 1, 3, 5, 2]" 1] by simp

text \<open>
  Claim C7, as stated, holds for every \<open>maxIter\<close>. At \<open>maxIter = 2\<^sup>3\<^sup>2\<close> the call
  throws, and returns no sequence at all.
\<close>

theorem normalize_length_interior_counterexample:
  "[0, 2 ^ 32 :: nat] ! 1 = 2 ^ 32 \<and> normalize [0, 2 ^ 32] (2 ^ 32) = Inl RangeError"
  by (simp add: normalize_RangeError)

text \<open>
  Claim C7, amended: for \<open>maxIter < 2\<^sup>3\<^sup>2\<close> and every \<open>ns\<close>, \<^verbatim>\<open>normalize\<close> returns a
  sequence of the length of \<open>ns\<close>, and an entry equal to \<open>maxIter\<close> yields
  \<open>maxIter\<close> at the same position.
\<close>

theorem normalize_length_interior:
  assumes "maxIter < 2 ^ 32"
  shows "\<exists>out. normalize ns maxIter = Inr out \<and> length out = length ns \<and>
           (\<forall>i<length ns. ns ! i = maxIter \<longrightarrow> out ! i = num maxIter)"
  by (simp add: normalize_Inr [OF assms])

theorem normalize_length_interior_witness:
  "(3::nat) < 2 ^ 32 \<and>
   (\<exists>out. normalize [3, 1, 3] 3 = Inr out \<and> length out = length [3, 1, 3::nat] \<and>
      out ! 0 = num 3 \<and> out ! 2 = num 3)"
proof -
  have "(3::nat) < 2 ^ 32" by simp
  from normalize_length_interior [OF this, of "[3, 1, 3]"] obtain out where
    out: "normalize [3, 1, 3] 3 = Inr out" "length out = length [3, 1, 3::nat]"
    and nth: "\<forall>i<length [3, 1, 3::nat]. [3, 1, 3::nat] ! i = 3 \<longrightarrow> out ! i = num 3"
    by blast
  from nth have "out ! 0 = num 3" "out ! 2 = num 3" by simp_all
  with out show ?thesis by simp
qed

text \<open>
  Claim C2, as stated, holds for every \<open>maxIter\<close>. At \<open>maxIter = 2\<^sup>3\<^sup>2\<close>, with the
  one entry \<open>2\<^sup>3\<^sup>2\<close>, the call fails: \<^verbatim>\<open>new Array(max)\<close> throws.
\<close>

theorem normalize_all_interior_counterexample:
  "[2 ^ 32 :: nat] \<noteq> [] \<and> set [2 ^ 32 :: nat] = {2 ^ 32} \<and>
   normalize [2 ^ 32] (2 ^ 32) = Inl RangeError"
  by (simp add: normalize_RangeError)

text \<open>
  Claim C2, amended: when no pixel escaped, that is for a non-empty \<open>ns\<close> whose
  entries all equal \<open>maxIter\<close>, and \<open>maxIter < 2\<^sup>3\<^sup>2\<close>, \<^verbatim>\<open>normalize\<close> does not fail
  and returns as many entries, all equal to \<open>maxIter\<close>. The divisor \<open>div\<close> is then
  zero (or \<open>NaN\<close> when \<open>maxIter\<close> is 0), and no entry is divided by it.
\<close>

theorem normalize_all_interior:
  assumes "maxIter < 2 ^ 32" and "ns \<noteq> []" and "\<forall>n\<in>set ns. n = maxIter"
  shows "normalize ns maxIter = Inr (replicate (length ns) (num maxIter))"
proof -
  have "normalize ns maxIter = Inr (map (\<lambda>n. num maxIter) ns)"
    unfolding normalize_Inr [OF assms(1)] using assms(3) by (simp cong: map_cong)
  then show ?thesis by (simp add: map_replicate_const)
qed

theorem normalize_all_interior_witness:
  "(5::nat) < 2 ^ 32 \<and> [5, 5, 5::nat] \<noteq> [] \<and> set [5, 5, 5::nat] = {5} \<and>
   normalize [5, 5, 5] 5 = Inr (replicate (length [5, 5, 5::nat]) (num 5))"
  using normalize_all_interior [of 5 "[5, 5, 5]"] by simp
section \<open>Properties of the image composer\<close>

lemma those_eq_Some: "(those xs = Some ys) = (xs = map Some ys)"
proof (induction xs arbitrary: ys)
  case Nil
  show ?case by auto
next
  case (Cons x xs)
  show ?case
  proof (cases x)
    case None
    then show ?thesis by auto
  next
    case (Some v)
    show ?thesis
    proof (cases ys)
      case Nil
      then show ?thesis using Some by (simp split: option.splits)
    next
      case (Cons z zs)
      then show ?thesis using Some Cons.IH [of zs] by (auto split: option.splits)
    qed
  qed
qed

lemma cols_loop_append:
  "cols_loop w x1 x2 y maxIter c nValues =
   map_option (\<lambda>row. nValues @ row)
     (those (map (\<lambda>c. mandel (map_js (Fin 0) (num w) x1 x2 (num c)) y maxIter) [c..<w]))"
proof (induction w x1 x2 y maxIter c nValues rule: cols_loop.induct)
  case (1 w x1 x2 y maxIter c nValues)
  show ?case
  proof (cases "c < w")
    case True
    show ?thesis
    proof (cases "mandel (map_js (Fin 0) (num w) x1 x2 (num c)) y maxIter")
      case None
      then show ?thesis
        using True by (subst cols_loop.simps) (simp add: upt_conv_Cons)
    next
      case (Some n)
      then show ?thesis
        using True "1.IH" [OF True Some]
        by (subst cols_loop.simps) (simp add: upt_conv_Cons option.map_comp comp_def)
    qed
  next
    case False
    then show ?thesis
      by (subst cols_loop.simps) simp
  qed
qed

lemma cols_loop_row:
  "cols_loop w x1 x2 (map_js (Fin 0) (num h) y1 y2 (num r)) maxIter 0 nValues =
   map_option (\<lambda>row. nValues @ row) (those (grid_row w h x1 x2 y1 y2 maxIter r))"
  by (simp add: cols_loop_append grid_row_def)

lemma rows_loop_append:
  "rows_loop w h x1 x2 y1 y2 maxIter r nValues =
   map_option (\<lambda>rows. nValues @ concat rows)
     (those (map (\<lambda>r. those (grid_row w h x1 x2 y1 y2 maxIter r)) [r..<h]))"
proof (induction w h x1 x2 y1 y2 maxIter r nValues rule: rows_loop.induct)
  case (1 w h x1 x2 y1 y2 maxIter r nValues)
  show ?case
  proof (cases "r < h")
    case True
    show ?thesis
    proof (cases "those (grid_row w h x1 x2 y1 y2 maxIter r)")
      case None
      then show ?thesis
        using True by (subst rows_loop.simps) (simp add: upt_conv_Cons cols_loop_row)
    next
      case (Some row)
      then have "cols_loop w x1 x2 (map_js (Fin 0) (num h) y1 y2 (num r)) maxIter 0 nValues =
                 Some (nValues @ row)"
        by (simp add: cols_loop_row)
      then show ?thesis
        using True Some "1.IH" [OF True, of "nValues @ row"]
        by (subst rows_loop.simps) (simp add: upt_conv_Cons option.map_comp comp_def)
    qed
  next
    case False
    then show ?thesis
      by (subst rows_loop.simps) simp
  qed
qed



text \<open>
  The counts are built exactly when every call of \<^verbatim>\<open>mandel\<close> on the grid returns;
  they are the rows of results, one after the other.
\<close>

lemma nValues_Some_iff:
  "(createMandelImage_nValues w h x1 x2 y1 y2 maxIter = Some vs) =
   (\<exists>rows. length rows = h \<and>
      (\<forall>r<h. grid_row w h x1 x2 y1 y2 maxIter r = map Some (rows ! r)) \<and> vs = concat rows)"
proof -
  let ?g = "grid_row w h x1 x2 y1 y2 maxIter"
  have "(createMandelImage_nValues w h x1 x2 y1 y2 maxIter = Some vs) =
        (\<exists>rows. those (map (\<lambda>r. those (?g r)) [0..<h]) = Some rows \<and> vs = concat rows)"
    by (auto simp add: createMandelImage_nValues_def rows_loop_append)
  also have "\<dots> = (\<exists>rows. map (\<lambda>r. those (?g r)) [0..<h] = map Some rows \<and> vs = concat rows)"
    by (simp only: those_eq_Some)
  also have "\<dots> = (\<exists>rows. length rows = h \<and> (\<forall>r<h. ?g r = map Some (rows ! r)) \<and> vs = concat rows)"
  proof -
    have "(map (\<lambda>r. those (?g r)) [0..<h] = map Some rows) =
          (length rows = h \<and> (\<forall>r<h. ?g r = map Some (rows ! r)))" for rows
      by (auto simp add: list_eq_iff_nth_eq those_eq_Some)
    then show ?thesis by simp
  qed
  finally show ?thesis .
qed

lemma grid_row_eq:
  "(grid_row w h x1 x2 y1 y2 maxIter r = map Some row) =
   (length row = w \<and> (\<forall>c<w. mandel (map_js (Fin 0) (num w) x1 x2 (num c))
                                   (map_js (Fin 0) (num h) y1 y2 (num r)) maxIter = Some (row ! c)))"
  by (auto simp add: grid_row_def list_eq_iff_nth_eq)



lemma nValues_returns:
  assumes m: "maxIter \<le> 2 ^ 53"
  shows "\<exists>vs. createMandelImage_nValues w h x1 x2 y1 y2 maxIter = Some vs"
proof -
  let ?m = "\<lambda>r c. mandel (map_js (Fin 0) (num w) x1 x2 (num c))
                          (map_js (Fin 0) (num h) y1 y2 (num r)) maxIter"
  define f where "f = (\<lambda>r c. the (?m r c))"
  have "\<exists>n. ?m r c = Some n" for r c
    using mandel_returns [OF m] by blast
  then have f: "?m r c = Some (f r c)" for r c
    unfolding f_def by (metis option.sel)
  let ?rows = "map (\<lambda>r. map (f r) [0..<w]) [0..<h]"
  have "length ?rows = h \<and>
        (\<forall>r<h. grid_row w h x1 x2 y1 y2 maxIter r = map Some (?rows ! r)) \<and>
        concat ?rows = concat ?rows"
    unfolding grid_row_eq using f by simp
  then have "createMandelImage_nValues w h x1 x2 y1 y2 maxIter = Some (concat ?rows)"
    unfolding nValues_Some_iff by blast
  then show ?thesis ..
qed




section \<open>Properties of the viewport controller\<close>

text \<open>
  With the constants of \<^verbatim>\<open>onload\<close> the image is always computed: \<open>max = 500\<close> is
  an array length, and below \<open>2\<^sup>5\<^sup>3\<close>.
\<close>

lemma createMandelImage_canvas_returns:
  "\<exists>img. createMandelImage canvas_w canvas_h x1 x2 y1 y2 canvas_max = Some (Inr img)"
proof -
  have "canvas_max \<le> 2 ^ 53" by (simp add: canvas_max_def)
  from nValues_returns [OF this] obtain vs where
    "createMandelImage_nValues canvas_w canvas_h x1 x2 y1 y2 canvas_max = Some vs" by blast
  moreover have "canvas_max < 2 ^ 32" by (simp add: canvas_max_def)
  ultimately show ?thesis
    by (simp add: createMandelImage_def normalize_Inr)
qed

lemma update_fields [simp]:
  "xRange (update s) = xRange s" "yRange (update s) = yRange s" "start (update s) = start s"
  "mDown (update s) = mDown s"
  by (simp_all add: update_def Let_def split: prod.splits)

lemma redraw_fields [simp]:
  "xRange (redraw s) = xRange s" "yRange (redraw s) = yRange s" "start (redraw s) = start s"
  "mDown (redraw s) = mDown s"
  by (simp_all add: redraw_def)

lemma mouseUp_ranges:
  assumes "js_gt (js_sub (fst (endPos s e)) (fst (start s))) (Fin 2)"
  shows "xRange (mouseUp s e) = (fst (realPos s (start s)), fst (realPos s (endPos s e)))"
    and "yRange (mouseUp s e) = (snd (realPos s (start s)), snd (realPos s (endPos s e)))"
  using assms by (simp_all add: mouseUp_def Let_def)

lemma realPos_inversions: "realPos s pos = inversions (xRange s) (yRange s) pos"
  by (simp add: realPos_def inversions_def Let_def split: prod.splits)

lemma quiet_step:
  assumes "quiet ev"
  shows "xRange (step s ev) = xRange s \<and> yRange (step s ev) = yRange s \<and>
         start (step s ev) = start s"
  using assms
  by (cases ev) (simp_all add: mouseMove_def keyDown_def Let_def redraw_def)

lemma quiet_run:
  assumes "list_all quiet evs"
  shows "xRange (run s evs) = xRange s \<and> yRange (run s evs) = yRange s \<and>
         start (run s evs) = start s"
  using assms unfolding run_def
  by (induction evs arbitrary: s) (simp_all add: quiet_step)

lemma canvasPos_ev_at: "canvasPos (ev_at x y) = (rd x, rd y)"
  by (simp add: canvasPos_def ev_at_def js_sub_def)

lemma endPos_fst: "fst (endPos s e) = fst (canvasPos e)"
  by (simp add: endPos_def Let_def)

lemma zoomOut_initial: "zoomOut (Fin (- 2), Fin 2) = (Fin (- 4), Fin 4)"
  by (simp add: zoomOut_def js_sub_def Let_def)

text \<open>
  Claim C3, as stated: after a mouse down, any events, and a mouse up with a
  selection wider than 2 pixels, the new ranges are the inversions of the selection
  corners under the ranges in effect at the mouse down. It fails when a key \<open>z\<close>
  comes in between: from the initial x range \<open>[-2, 2]\<close>, mouse down at \<open>(10, 10)\<close>,
  key \<open>z\<close> (the x range becomes \<open>[-4, 4]\<close>) and mouse up at \<open>x = 50\<close> give the x
  range that \<^verbatim>\<open>map\<close> computes from \<open>[-4, 4]\<close>, whose first bound is near \<open>-3.96\<close>,
  not the one it computes from \<open>[-2, 2]\<close>, near \<open>-1.98\<close>.
\<close>

theorem mouseUp_gesture_start_counterexample:
  "js_gt (js_sub (fst (endPos (run (step onload (MouseDown (ev_at 10 10))) [KeyDown ''z'']) (ev_at 50 10)))
                 (fst (start (run (step onload (MouseDown (ev_at 10 10))) [KeyDown ''z'']))))
         (Fin 2) \<and>
   xRange (step (run (step onload (MouseDown (ev_at 10 10))) [KeyDown ''z'']) (MouseUp (ev_at 50 10))) \<noteq>
     (fst (inversions (xRange onload) (yRange onload)
             (start (run (step onload (MouseDown (ev_at 10 10))) [KeyDown ''z'']))),
      fst (inversions (xRange onload) (yRange onload)
             (endPos (run (step onload (MouseDown (ev_at 10 10))) [KeyDown ''z'']) (ev_at 50 10))))"
proof -
  let ?s = "keyDown (mouseDown onload (ev_at 10 10)) ''z''"
  have trace: "run (mouseDown onload (ev_at 10 10)) [KeyDown ''z''] = ?s"
    by (simp add: run_def)
  have st: "start ?s = (Fin 10, Fin 10)"
    by (simp add: keyDown_def mouseDown_def canvasPos_ev_at)
  have xr: "xRange ?s = (Fin (- 4), Fin 4)"
    by (simp add: keyDown_def mouseDown_def onload_def zoomOut_initial)
  have x0: "xRange onload = (Fin (- 2), Fin 2)"
    by (simp add: onload_def)
  have en: "fst (endPos ?s (ev_at 50 10)) = Fin 50"
    by (simp add: endPos_fst canvasPos_ev_at)
  have gt: "js_gt (js_sub (fst (endPos ?s (ev_at 50 10))) (fst (start ?s))) (Fin 2)"
    unfolding en st by (simp add: js_sub_def)
  have "xRange (mouseUp ?s (ev_at 50 10)) =
        (fst (inversions (xRange ?s) (yRange ?s) (start ?s)),
         fst (inversions (xRange ?s) (yRange ?s) (endPos ?s (ev_at 50 10))))"
    unfolding mouseUp_ranges(1) [OF gt] realPos_inversions ..
  then have new: "fst (xRange (mouseUp ?s (ev_at 50 10))) =
        map_js (Fin 0) (Fin 1900) (Fin (- 4)) (Fin 4) (Fin 10)"
    unfolding inversions_def xr st fst_conv snd_conv
    by (simp add: num_def canvas_w_def)
  have old: "fst (fst (inversions (xRange onload) (yRange onload) (start ?s)),
              fst (inversions (xRange onload) (yRange onload) (endPos ?s (ev_at 50 10)))) =
             map_js (Fin 0) (Fin 1900) (Fin (- 2)) (Fin 2) (Fin 10)"
    unfolding inversions_def x0 st fst_conv snd_conv
    by (simp add: num_def canvas_w_def)
  have "map_js (Fin 0) (Fin 1900) (Fin (- 4)) (Fin 4) (Fin 10) \<noteq>
        map_js (Fin 0) (Fin 1900) (Fin (- 2)) (Fin 2) (Fin 10)"
    by (simp add: map_js_def js_sub_def rd_compute)
  then have "xRange (mouseUp ?s (ev_at 50 10)) \<noteq>
        (fst (inversions (xRange onload) (yRange onload) (start ?s)),
         fst (inversions (xRange onload) (yRange onload) (endPos ?s (ev_at 50 10))))"
    using new old by metis
  with gt show ?thesis
    unfolding step.simps trace by (rule conjI)
qed

text \<open>
  Claim C3, amended: after a mouse down, any events, and a mouse up with a selection
  wider than 2 pixels, the new ranges are the inversions of the selection corners
  under the ranges current at the mouse up (\<^verbatim>\<open>realPos\<close> reads \<^verbatim>\<open>xRange\<close> and
  \<^verbatim>\<open>yRange\<close> when it is called). They are the ranges at the mouse down, and the
  first corner is the position of the mouse down, when the events in between are
  only mouse moves and keys other than \<open>z\<close>.
\<close>

theorem mouseUp_uses_current_bounds:
  fixes s0 :: state and p :: mouse_event and evs :: "event list"
  defines "s \<equiv> run (step s0 (MouseDown p)) evs"
  assumes "js_gt (js_sub (fst (endPos s q)) (fst (start s))) (Fin 2)"
  shows "xRange (step s (MouseUp q)) =
           (fst (inversions (xRange s) (yRange s) (start s)),
            fst (inversions (xRange s) (yRange s) (endPos s q))) \<and>
         yRange (step s (MouseUp q)) =
           (snd (inversions (xRange s) (yRange s) (start s)),
            snd (inversions (xRange s) (yRange s) (endPos s q))) \<and>
         (list_all quiet evs \<longrightarrow>
            xRange s = xRange s0 \<and> yRange s = yRange s0 \<and> start s = canvasPos p)"
proof -
  have "list_all quiet evs \<longrightarrow>
        xRange s = xRange s0 \<and> yRange s = yRange s0 \<and> start s = canvasPos p"
    unfolding s_def using quiet_run [of evs "step s0 (MouseDown p)"]
    by (simp add: mouseDown_def)
  then show ?thesis
    using mouseUp_ranges [OF assms(2)] by (simp add: realPos_inversions)
qed

theorem mouseUp_uses_current_bounds_witness:
  "js_gt (js_sub (fst (endPos (run (step onload (MouseDown (ev_at 10 10))) [MouseMove (ev_at 30 10)]) (ev_at 50 10)))
                 (fst (start (run (step onload (MouseDown (ev_at 10 10))) [MouseMove (ev_at 30 10)]))))
         (Fin 2) \<and>
   list_all quiet [MouseMove (ev_at 30 10)] \<and>
   xRange (step (run (step onload (MouseDown (ev_at 10 10))) [MouseMove (ev_at 30 10)]) (MouseUp (ev_at 50 10))) =
     (fst (inversions (xRange onload) (yRange onload) (canvasPos (ev_at 10 10))),
      fst (inversions (xRange onload) (yRange onload)
             (endPos (run (step onload (MouseDown (ev_at 10 10))) [MouseMove (ev_at 30 10)]) (ev_at 50 10))))"
proof -
  let ?s = "run (step onload (MouseDown (ev_at 10 10))) [MouseMove (ev_at 30 10)]"
  have q: "list_all quiet [MouseMove (ev_at 30 10)]" by simp
  have "start ?s = start (step onload (MouseDown (ev_at 10 10)))"
    using quiet_run [OF q] by blast
  then have st: "start ?s = (Fin 10, Fin 10)"
    by (simp add: mouseDown_def canvasPos_ev_at)
  have en: "fst (endPos ?s (ev_at 50 10)) = Fin 50"
    by (simp add: endPos_fst canvasPos_ev_at)
  have gt: "js_gt (js_sub (fst (endPos ?s (ev_at 50 10))) (fst (start ?s))) (Fin 2)"
    unfolding en st by (simp add: js_sub_def)
  note amended = mouseUp_uses_current_bounds [OF gt]
  from amended q have same: "xRange ?s = xRange onload" "yRange ?s = yRange onload"
    "start ?s = canvasPos (ev_at 10 10)"
    by blast+
  from amended have "xRange (step ?s (MouseUp (ev_at 50 10))) =
           (fst (inversions (xRange ?s) (yRange ?s) (start ?s)),
            fst (inversions (xRange ?s) (yRange ?s) (endPos ?s (ev_at 50 10))))"
    by (rule conjunct1)
  then have "xRange (step ?s (MouseUp (ev_at 50 10))) =
     (fst (inversions (xRange onload) (yRange onload) (canvasPos (ev_at 10 10))),
      fst (inversions (xRange onload) (yRange onload) (endPos ?s (ev_at 50 10))))"
    unfolding same .
  with gt q show ?thesis by (intro conjI)
qed







text \<open>
  Six selections three pixels wide, each from the corner of the canvas. Every one
  passes the test \<^verbatim>\<open>w > 2\<close>, and \<^verbatim>\<open>map\<close> returns the bounds below.
\<close>

lemma ratio_value: "ratio = Fin (4917723731036749 / 2 ^ 51)"
  by (simp add: ratio_def num_def canvas_w_def canvas_h_def rd_compute)

lemma select3_endPos:
  "endPos (mouseDown s (ev_at 0 0)) (ev_at 3 0) = (Fin 3, Fin (6186523698651049 / 2 ^ 52))"
  by (simp add: endPos_def Let_def canvasPos_ev_at mouseDown_def ratio_value js_sub_def rd_compute)

lemma select3_ranges:
  "xRange (select3 s) =
     (map_js (Fin 0) (Fin 1900) (fst (xRange s)) (snd (xRange s)) (Fin 0),
      map_js (Fin 0) (Fin 1900) (fst (xRange s)) (snd (xRange s)) (Fin 3))"
  "yRange (select3 s) =
     (map_js (Fin 0) (Fin 870) (fst (yRange s)) (snd (yRange s)) (Fin 0),
      map_js (Fin 0) (Fin 870) (fst (yRange s)) (snd (yRange s)) (Fin (6186523698651049 / 2 ^ 52)))"
proof -
  let ?d = "mouseDown s (ev_at 0 0)"
  have st: "start ?d = (Fin 0, Fin 0)" by (simp add: mouseDown_def canvasPos_ev_at)
  have gt: "js_gt (js_sub (fst (endPos ?d (ev_at 3 0))) (fst (start ?d))) (Fin 2)"
    unfolding select3_endPos st by (simp add: js_sub_def)
  have r: "xRange ?d = xRange s" "yRange ?d = yRange s" by (simp_all add: mouseDown_def)
  show "xRange (select3 s) =
     (map_js (Fin 0) (Fin 1900) (fst (xRange s)) (snd (xRange s)) (Fin 0),
      map_js (Fin 0) (Fin 1900) (fst (xRange s)) (snd (xRange s)) (Fin 3))"
    unfolding select3_def step.simps mouseUp_ranges(1) [OF gt] realPos_inversions
      inversions_def select3_endPos st r
    by (simp add: num_def canvas_w_def)
  show "yRange (select3 s) =
     (map_js (Fin 0) (Fin 870) (fst (yRange s)) (snd (yRange s)) (Fin 0),
      map_js (Fin 0) (Fin 870) (fst (yRange s)) (snd (yRange s)) (Fin (6186523698651049 / 2 ^ 52)))"
    unfolding select3_def step.simps mouseUp_ranges(2) [OF gt] realPos_inversions
      inversions_def select3_endPos st r
    by (simp add: num_def canvas_h_def)
qed

lemma x_first:
  "map_js (Fin 0) (Fin 1900) (Fin (- 2)) (Fin 2) (Fin 0) = Fin (- 2)"
  "map_js (Fin 0) (Fin 1900) (Fin (- 2)) (Fin (- 8978755467620757 / 2 ^ 52)) (Fin 0) = Fin (- 2)"
  "map_js (Fin 0) (Fin 1900) (Fin (- 2)) (Fin (- 9007154343498171 / 2 ^ 52)) (Fin 0) = Fin (- 2)"
  "map_js (Fin 0) (Fin 1900) (Fin (- 2)) (Fin (- 9007199183828503 / 2 ^ 52)) (Fin 0) = Fin (- 2)"
  "map_js (Fin 0) (Fin 1900) (Fin (- 2)) (Fin (- 9007199254629025 / 2 ^ 52)) (Fin 0) = Fin (- 2)"
  "map_js (Fin 0) (Fin 1900) (Fin (- 2)) (Fin (- 9007199254740815 / 2 ^ 52)) (Fin 0) = Fin (- 2)"
  by (simp_all add: map_js_def js_sub_def rd_compute)

lemma x_third:
  "map_js (Fin 0) (Fin 1900) (Fin (- 2)) (Fin 2) (Fin 3) =
   Fin (- 8978755467620757 / 2 ^ 52)"
  "map_js (Fin 0) (Fin 1900) (Fin (- 2)) (Fin (- 8978755467620757 / 2 ^ 52)) (Fin 3) =
   Fin (- 9007154343498171 / 2 ^ 52)"
  "map_js (Fin 0) (Fin 1900) (Fin (- 2)) (Fin (- 9007154343498171 / 2 ^ 52)) (Fin 3) =
   Fin (- 9007199183828503 / 2 ^ 52)"
  "map_js (Fin 0) (Fin 1900) (Fin (- 2)) (Fin (- 9007199183828503 / 2 ^ 52)) (Fin 3) =
   Fin (- 9007199254629025 / 2 ^ 52)"
  "map_js (Fin 0) (Fin 1900) (Fin (- 2)) (Fin (- 9007199254629025 / 2 ^ 52)) (Fin 3) =
   Fin (- 9007199254740815 / 2 ^ 52)"
  "map_js (Fin 0) (Fin 1900) (Fin (- 2)) (Fin (- 9007199254740815 / 2 ^ 52)) (Fin 3) =
   Fin (- 2)"
  by (simp_all add: map_js_def js_sub_def rd_compute)

lemma y_first:
  "map_js (Fin 0) (Fin 870) (Fin (- 4124349132434033 / 2 ^ 52)) (Fin (4124349132434033 / 2 ^ 52)) (Fin 0) =
   Fin (- 4124349132434033 / 2 ^ 52)"
  "map_js (Fin 0) (Fin 870) (Fin (- 4124349132434033 / 2 ^ 52)) (Fin (- 8222649744031641 / 2 ^ 53)) (Fin 0) =
   Fin (- 4124349132434033 / 2 ^ 52)"
  "map_js (Fin 0) (Fin 870) (Fin (- 4124349132434033 / 2 ^ 52)) (Fin (- 128885267744135 / 2 ^ 47)) (Fin 0) =
   Fin (- 4124349132434033 / 2 ^ 52)"
  "map_js (Fin 0) (Fin 870) (Fin (- 4124349132434033 / 2 ^ 52)) (Fin (- 8248698199927155 / 2 ^ 53)) (Fin 0) =
   Fin (- 4124349132434033 / 2 ^ 52)"
  "map_js (Fin 0) (Fin 870) (Fin (- 4124349132434033 / 2 ^ 52)) (Fin (- 1031087283095691 / 2 ^ 50)) (Fin 0) =
   Fin (- 4124349132434033 / 2 ^ 52)"
  "map_js (Fin 0) (Fin 870) (Fin (- 4124349132434033 / 2 ^ 52)) (Fin (- 128885910388561 / 2 ^ 47)) (Fin 0) =
   Fin (- 4124349132434033 / 2 ^ 52)"
  by (simp_all add: map_js_def js_sub_def rd_compute)

lemma y_third:
  "map_js (Fin 0) (Fin 870) (Fin (- 4124349132434033 / 2 ^ 52)) (Fin (4124349132434033 / 2 ^ 52))
     (Fin (6186523698651049 / 2 ^ 52)) =
   Fin (- 8222649744031641 / 2 ^ 53)"
  "map_js (Fin 0) (Fin 870) (Fin (- 4124349132434033 / 2 ^ 52)) (Fin (- 8222649744031641 / 2 ^ 53))
     (Fin (6186523698651049 / 2 ^ 52)) =
   Fin (- 128885267744135 / 2 ^ 47)"
  "map_js (Fin 0) (Fin 870) (Fin (- 4124349132434033 / 2 ^ 52)) (Fin (- 128885267744135 / 2 ^ 47))
     (Fin (6186523698651049 / 2 ^ 52)) =
   Fin (- 8248698199927155 / 2 ^ 53)"
  "map_js (Fin 0) (Fin 870) (Fin (- 4124349132434033 / 2 ^ 52)) (Fin (- 8248698199927155 / 2 ^ 53))
     (Fin (6186523698651049 / 2 ^ 52)) =
   Fin (- 1031087283095691 / 2 ^ 50)"
  "map_js (Fin 0) (Fin 870) (Fin (- 4124349132434033 / 2 ^ 52)) (Fin (- 1031087283095691 / 2 ^ 50))
     (Fin (6186523698651049 / 2 ^ 52)) =
   Fin (- 128885910388561 / 2 ^ 47)"
  "map_js (Fin 0) (Fin 870) (Fin (- 4124349132434033 / 2 ^ 52)) (Fin (- 128885910388561 / 2 ^ 47))
     (Fin (6186523698651049 / 2 ^ 52)) =
   Fin (- 4124349132434033 / 2 ^ 52)"
  by (simp_all add: map_js_def js_sub_def rd_compute)

text \<open>
  Claim C9 fails on the code: nonzero width is not an invariant of the controller.
  From \<^verbatim>\<open>onload\<close>, six times a mouse down at \<open>(0, 0)\<close> and a mouse up at \<open>x = 3\<close>,
  each a selection of width \<open>3 > 2\<close> pixels, leave the x range \<open>[-2, -2]\<close> and a y
  range whose two bounds are equal: the only guard is on the width in pixels, and
  the width on the plane has fallen below the spacing of the doubles near \<open>-2\<close>.
\<close>

theorem bounds_collapse_after_selections:
  "xRange (run onload (concat (replicate 6 [MouseDown (ev_at 0 0), MouseUp (ev_at 3 0)]))) =
     (Fin (- 2), Fin (- 2)) \<and>
   fst (yRange (run onload (concat (replicate 6 [MouseDown (ev_at 0 0), MouseUp (ev_at 3 0)])))) =
   snd (yRange (run onload (concat (replicate 6 [MouseDown (ev_at 0 0), MouseUp (ev_at 3 0)]))))"
proof -
  have x0: "xRange onload = (Fin (- 2), Fin 2)"
    by (simp add: onload_def)
  have y0: "yRange onload =
      (Fin (- 4124349132434033 / 2 ^ 52), Fin (4124349132434033 / 2 ^ 52))"
    by (simp add: onload_def ratio_value rd_compute)
  have x1: "xRange (select3 onload) =
      (Fin (- 2), Fin (- 8978755467620757 / 2 ^ 52))"
    unfolding select3_ranges(1) [of "onload"] x0 fst_conv snd_conv x_first x_third ..
  have y1: "yRange (select3 onload) =
      (Fin (- 4124349132434033 / 2 ^ 52), Fin (- 8222649744031641 / 2 ^ 53))"
    unfolding select3_ranges(2) [of "onload"] y0 fst_conv snd_conv y_first y_third ..
  have x2: "xRange (select3 (select3 onload)) =
      (Fin (- 2), Fin (- 9007154343498171 / 2 ^ 52))"
    unfolding select3_ranges(1) [of "select3 onload"] x1 fst_conv snd_conv x_first x_third ..
  have y2: "yRange (select3 (select3 onload)) =
      (Fin (- 4124349132434033 / 2 ^ 52), Fin (- 128885267744135 / 2 ^ 47))"
    unfolding select3_ranges(2) [of "select3 onload"] y1 fst_conv snd_conv y_first y_third ..
  have x3: "xRange (select3 (select3 (select3 onload))) =
      (Fin (- 2), Fin (- 9007199183828503 / 2 ^ 52))"
    unfolding select3_ranges(1) [of "select3 (select3 onload)"] x2 fst_conv snd_conv x_first x_third ..
  have y3: "yRange (select3 (select3 (select3 onload))) =
      (Fin (- 4124349132434033 / 2 ^ 52), Fin (- 8248698199927155 / 2 ^ 53))"
    unfolding select3_ranges(2) [of "select3 (select3 onload)"] y2 fst_conv snd_conv y_first y_third ..
  have x4: "xRange (select3 (select3 (select3 (select3 onload)))) =
      (Fin (- 2), Fin (- 9007199254629025 / 2 ^ 52))"
    unfolding select3_ranges(1) [of "select3 (select3 (select3 onload))"] x3 fst_conv snd_conv x_first x_third ..
  have y4: "yRange (select3 (select3 (select3 (select3 onload)))) =
      (Fin (- 4124349132434033 / 2 ^ 52), Fin (- 1031087283095691 / 2 ^ 50))"
    unfolding select3_ranges(2) [of "select3 (select3 (select3 onload))"] y3 fst_conv snd_conv y_first y_third ..
  have x5: "xRange (select3 (select3 (select3 (select3 (select3 onload))))) =
      (Fin (- 2), Fin (- 9007199254740815 / 2 ^ 52))"
    unfolding select3_ranges(1) [of "select3 (select3 (select3 (select3 onload)))"] x4 fst_conv snd_conv x_first x_third ..
  have y5: "yRange (select3 (select3 (select3 (select3 (select3 onload))))) =
      (Fin (- 4124349132434033 / 2 ^ 52), Fin (- 128885910388561 / 2 ^ 47))"
    unfolding select3_ranges(2) [of "select3 (select3 (select3 (select3 onload)))"] y4 fst_conv snd_conv y_first y_third ..
  have x6: "xRange (select3 (select3 (select3 (select3 (select3 (select3 onload)))))) =
      (Fin (- 2), Fin (- 2))"
    unfolding select3_ranges(1) [of "select3 (select3 (select3 (select3 (select3 onload))))"] x5 fst_conv snd_conv x_first x_third ..
  have y6: "yRange (select3 (select3 (select3 (select3 (select3 (select3 onload)))))) =
      (Fin (- 4124349132434033 / 2 ^ 52), Fin (- 4124349132434033 / 2 ^ 52))"
    unfolding select3_ranges(2) [of "select3 (select3 (select3 (select3 (select3 onload))))"] y5 fst_conv snd_conv y_first y_third ..
  have "run onload (concat (replicate 6 [MouseDown (ev_at 0 0), MouseUp (ev_at 3 0)])) =
        select3 (select3 (select3 (select3 (select3 (select3 onload)))))"
    by (simp add: run_def select3_def eval_nat_numeral)
  then show ?thesis using x6 y6 by simp
qed

end
